theory Spec2Isabelle
  imports Main "HOL-Library.Word"
begin

section \<open>JavaScript strings and responses\<close>

text \<open>
  A JSON field that holds a string is a \<open>string option\<close>: \<open>None\<close> is an absent
  (undefined or null) field. A string is falsy exactly when it is empty, and
  \<open>a || b\<close> yields \<open>a\<close> when \<open>a\<close> is truthy and \<open>b\<close> otherwise.
\<close>

definition truthy :: "string option \<Rightarrow> bool" where
  "truthy v = (case v of None \<Rightarrow> False | Some s \<Rightarrow> s \<noteq> [])"

definition js_or :: "string option \<Rightarrow> string option \<Rightarrow> string option" where
  "js_or a b = (if truthy a then a else b)"

definition or_str :: "string option \<Rightarrow> string \<Rightarrow> string" where
  "or_str a d = (case a of None \<Rightarrow> d | Some s \<Rightarrow> if s = [] then d else s)"

text \<open>Decimal rendering of a number inside a template literal.\<close>

function decimal :: "nat \<Rightarrow> string" where
  "decimal n = (if n < 10 then [char_of (48 + n)]
                else decimal (n div 10) @ [char_of (48 + n mod 10)])"
  by pat_completeness auto
termination
  by (relation "measure (\<lambda>n. n)") auto

declare decimal.simps [simp del]

text \<open>
  The parsed JSON body of a response of the analysis endpoints, with the fields the
  page reads. \<open>r_json\<close> is what \<open>JSON.parse(text)\<close> returns, \<open>None\<close> when it throws.
\<close>

record body =
  b_status :: "string option"
  b_state :: "string option"
  b_error :: "string option"
  b_message :: "string option"
  b_detail :: "string option"
  b_job_id :: "string option"
  b_job :: "string option"
  b_file_id :: "string option"
  b_id :: "string option"
  b_summary :: "string option"

definition no_body :: body where
  "no_body = \<lparr>b_status = None, b_state = None, b_error = None, b_message = None,
     b_detail = None, b_job_id = None, b_job = None, b_file_id = None, b_id = None,
     b_summary = None\<rparr>"

record response =
  r_status :: nat
  r_statusText :: string
  r_text :: string
  r_json :: "body option"

text \<open>
  A settled fetch: a response whose body has been read, or a rejection (of the fetch
  itself or of reading the body) with the error's name and message.
\<close>

datatype fetched = Resp response | Threw string string

definition ok :: "response \<Rightarrow> bool" where
  "ok r = (200 \<le> r_status r \<and> r_status r \<le> 299)"

text \<open>\<open>text ? JSON.parse(text) : null\<close>, with \<open>null\<close> when parsing throws.\<close>

definition parsed :: "response \<Rightarrow> body option" where
  "parsed r = (if r_text r = [] then None else r_json r)"

definition status_line :: "response \<Rightarrow> string" where
  "status_line r = decimal (r_status r) @ '' '' @ r_statusText r"

text \<open>
  \<open>(body && (body.detail || body.error || body.message)) || text ||
  `${res.status} ${res.statusText}`\<close>
\<close>

definition server_message :: "response \<Rightarrow> string" where
  "server_message r =
     (let fromBody = (case parsed r of None \<Rightarrow> None
                      | Some b \<Rightarrow> js_or (js_or (b_detail b) (b_error b)) (b_message b))
      in or_str fromBody (if r_text r \<noteq> [] then r_text r else status_line r))"

text \<open>\<open>err.message || String(err)\<close>; an error without message prints as its name.\<close>

definition err_text :: "string \<Rightarrow> string \<Rightarrow> string" where
  "err_text name msg = (if msg \<noteq> [] then msg else name)"

section \<open>The AI analysis page: state\<close>

text \<open>
  \<open>pendingJob\<close> is \<open>{ jobId, status, message, lastChecked }\<close>; \<open>lastChecked\<close> is a
  wall-clock stamp and is left out.
\<close>

record pending =
  jobId :: "string option"
  status :: string
  message :: "string option"

text \<open>
  Every call of \<open>pollJobStatus\<close> creates one closure with its own \<open>attempts\<close>
  counter and arms one interval timer. A loop is that closure together with the
  state of its timer; the handle \<open>setInterval\<close> returns is the loop's index. A
  handle held in \<open>pollRef\<close> is truthy, as a browser's positive timer ids are.
\<close>

record poll_loop =
  l_jobId :: string
  attempts :: int
  maxAttempts :: int
  timer_on :: bool

datatype request =
    Analyze string
  | StatusCheck nat string
  | ResultFetch nat string

text \<open>
  The component state (\<open>useState\<close> and \<open>useRef\<close> cells) and its environment: the
  loops created so far, every network call issued so far (\<open>sent\<close>, oldest first) and
  the indices of the calls that have settled.
\<close>

record ai_state =
  loading :: bool
  analysis :: "body option"
  error :: "string option"
  lastFileId :: "string option"
  pendingJob :: "pending option"
  mountedRef :: bool
  pollRef :: "nat option"
  loops :: "poll_loop list"
  sent :: "request list"
  settled :: "nat list"

definition init :: ai_state where
  "init = \<lparr>loading = False, analysis = None, error = None, lastFileId = None,
     pendingJob = None, mountedRef = True, pollRef = None, loops = [], sent = [],
     settled = []\<rparr>"

definition issue :: "request \<Rightarrow> ai_state \<Rightarrow> ai_state" where
  "issue r s = s\<lparr>sent := sent s @ [r]\<rparr>"

text \<open>\<open>clearInterval(h)\<close>: a handle that names no timer is ignored.\<close>

definition clearInterval :: "nat \<Rightarrow> ai_state \<Rightarrow> ai_state" where
  "clearInterval h s =
     (if h < length (loops s)
      then s\<lparr>loops := (loops s)[h := (loops s ! h)\<lparr>timer_on := False\<rparr>]\<rparr>
      else s)"

text \<open>\<open>if (pollRef.current) { clearInterval(pollRef.current); pollRef.current = null; }\<close>\<close>

definition stop_poll :: "ai_state \<Rightarrow> ai_state" where
  "stop_poll s = (case pollRef s of None \<Rightarrow> s
                  | Some h \<Rightarrow> (clearInterval h s)\<lparr>pollRef := None\<rparr>)"

definition setLoadingIfMounted :: "bool \<Rightarrow> ai_state \<Rightarrow> ai_state" where
  "setLoadingIfMounted v s = (if mountedRef s then s\<lparr>loading := v\<rparr> else s)"

section \<open>The poller\<close>

text \<open>
  \<open>doPoll\<close> is an async function. Its body runs in three pieces, each to completion:
  up to the status fetch (\<open>doPoll_begin\<close>), from the settled status fetch to the
  result fetch or the end (\<open>doPoll_status\<close>), and from the settled result fetch to
  the end (\<open>doPoll_result\<close>).
\<close>

definition doPoll_begin :: "nat \<Rightarrow> ai_state \<Rightarrow> ai_state" where
  "doPoll_begin l s =
     (let lp = loops s ! l;
          s1 = s\<lparr>loops := (loops s)[l := lp\<lparr>attempts := attempts lp + 1\<rparr>]\<rparr>
      in issue (StatusCheck l (l_jobId lp)) s1)"

text \<open>\<open>(body && (body.status || body.state)) || "unknown"\<close>\<close>

definition status_of :: "response \<Rightarrow> string" where
  "status_of r = or_str (case parsed r of None \<Rightarrow> None
                         | Some b \<Rightarrow> js_or (b_status b) (b_state b)) ''unknown''"

definition is_done :: "string \<Rightarrow> bool" where
  "is_done st = (st = ''done'' \<or> st = ''succeeded'' \<or> st = ''complete'')"

definition is_failed :: "string \<Rightarrow> bool" where
  "is_failed st = (st = ''failed'' \<or> st = ''error'')"

text \<open>
  \<open>setPendingJob(prev => ({ ...(prev || {}), jobId, status, lastChecked,
  message: body?.error || body?.message || prev?.message || null }))\<close>
\<close>

definition note_status :: "string \<Rightarrow> string \<Rightarrow> body option \<Rightarrow> ai_state \<Rightarrow> ai_state" where
  "note_status jid st b s =
     (if mountedRef s
      then
        let m = js_or (js_or (case b of None \<Rightarrow> None | Some b' \<Rightarrow> b_error b')
                             (case b of None \<Rightarrow> None | Some b' \<Rightarrow> b_message b'))
                      (case pendingJob s of None \<Rightarrow> None | Some p \<Rightarrow> message p)
        in s\<lparr>pendingJob := Some \<lparr>jobId = Some jid, status = st,
                                   message = (if truthy m then m else None)\<rparr>\<rparr>
      else s)"

definition timeout_message :: string where
  "timeout_message = ''Polling timed out (max attempts). Analysis may still be running on server.''"

definition failed_message :: string where
  "failed_message = ''Analysis job failed on server''"

definition doPoll_status :: "nat \<Rightarrow> fetched \<Rightarrow> ai_state \<Rightarrow> ai_state" where
  "doPoll_status l f s =
     (let lp = loops s ! l in
      case f of
        Threw name msg \<Rightarrow>
          setLoadingIfMounted False
            (stop_poll (s\<lparr>error := Some (''Polling network error: '' @ err_text name msg)\<rparr>))
      | Resp r \<Rightarrow>
          if \<not> ok r
          then (case pollRef s of None \<Rightarrow> s | Some h \<Rightarrow> clearInterval h s)
                 \<lparr>error := Some (''Polling error: '' @ server_message r), pollRef := None\<rparr>
          else
            let st = status_of r;
                s1 = note_status (l_jobId lp) st (parsed r) s
            in if is_done st then issue (ResultFetch l (l_jobId lp)) s1
               else if is_failed st
               then setLoadingIfMounted False
                      (stop_poll (s1\<lparr>error := Some (or_str
                         (js_or (case parsed r of None \<Rightarrow> None | Some b \<Rightarrow> b_error b)
                                (case parsed r of None \<Rightarrow> None | Some b \<Rightarrow> b_message b))
                         failed_message)\<rparr>))
               else if attempts lp \<ge> maxAttempts lp
               then stop_poll (s1\<lparr>error := Some timeout_message\<rparr>)
               else s1)"

text \<open>
  The result fetch and its \<open>finally\<close> block:
  \<open>setPendingJob(prev => prev ? ({ ...prev, status: "done" }) : { jobId, status: "done" })\<close>.
\<close>

definition mark_done :: "string \<Rightarrow> ai_state \<Rightarrow> ai_state" where
  "mark_done jid s =
     s\<lparr>pendingJob := Some (case pendingJob s of
          None \<Rightarrow> \<lparr>jobId = Some jid, status = ''done'', message = None\<rparr>
        | Some p \<Rightarrow> p\<lparr>status := ''done''\<rparr>)\<rparr>"

definition summary_only :: "string \<Rightarrow> body" where
  "summary_only t = no_body\<lparr>b_summary := Some t\<rparr>"

definition doPoll_result :: "nat \<Rightarrow> fetched \<Rightarrow> ai_state \<Rightarrow> ai_state" where
  "doPoll_result l f s =
     (let lp = loops s ! l;
          s1 = (case f of
                  Threw name msg \<Rightarrow>
                    s\<lparr>error := Some (''Failed to fetch analysis result: '' @ err_text name msg)\<rparr>
                | Resp r \<Rightarrow>
                    (case (ok r, parsed r) of
                       (True, Some b) \<Rightarrow> s\<lparr>analysis := Some b\<rparr>
                     | (True, None) \<Rightarrow> s\<lparr>analysis := Some (summary_only (r_text r))\<rparr>
                     | (False, pb) \<Rightarrow>
                         s\<lparr>error := Some (or_str
                              (case pb of None \<Rightarrow> None | Some b \<Rightarrow> js_or (b_detail b) (b_error b))
                              (if r_text r \<noteq> [] then r_text r
                               else ''Result fetch returned '' @ decimal (r_status r)))\<rparr>))
      in mark_done (l_jobId lp) (setLoadingIfMounted False (stop_poll s1)))"

text \<open>
  \<open>pollJobStatus(jobId, { maxAttempts })\<close>: the first \<open>doPoll()\<close> runs up to its fetch
  before \<open>setInterval\<close> arms the timer of the new loop.
\<close>

definition pollJobStatus :: "string \<Rightarrow> int \<Rightarrow> ai_state \<Rightarrow> ai_state" where
  "pollJobStatus jid maxA s =
     (if jid = [] then s\<lparr>error := Some ''No job id to poll''\<rparr>
      else
        let s1 = (case pollRef s of None \<Rightarrow> s | Some h \<Rightarrow> clearInterval h s);
            l = length (loops s1);
            s2 = s1\<lparr>loops := loops s1 @
                   [\<lparr>l_jobId = jid, attempts = 0, maxAttempts = maxA, timer_on = False\<rparr>]\<rparr>;
            s3 = doPoll_begin l s2
        in s3\<lparr>loops := (loops s3)[l := (loops s3 ! l)\<lparr>timer_on := True\<rparr>],
               pollRef := Some l\<rparr>)"

definition cancelPoll :: "ai_state \<Rightarrow> ai_state" where
  "cancelPoll s =
     (case pollRef s of None \<Rightarrow> s
      | Some h \<Rightarrow>
          (clearInterval h s)
            \<lparr>pollRef := None,
             pendingJob := (case pendingJob s of None \<Rightarrow> None
                            | Some p \<Rightarrow> Some (p\<lparr>status := ''cancelled''\<rparr>)),
             error := Some ''Polling cancelled by user.'',
             loading := False\<rparr>)"

section \<open>The analysis trigger\<close>

definition runAnalysisForFile_begin :: "string option \<Rightarrow> ai_state \<Rightarrow> ai_state" where
  "runAnalysisForFile_begin fileId s =
     (if \<not> truthy fileId then s\<lparr>error := Some ''No file id provided''\<rparr>
      else issue (Analyze (the fileId))
             (s\<lparr>error := None, analysis := None, pendingJob := None, loading := True\<rparr>))"

definition abort_message :: string where
  "abort_message =
     ''Request timed out. Analysis will continue on server; check job status if available.''"

definition runAnalysisForFile_settle :: "fetched \<Rightarrow> ai_state \<Rightarrow> ai_state" where
  "runAnalysisForFile_settle f s =
     setLoadingIfMounted False
       (case f of
          Threw name msg \<Rightarrow>
            if name = ''AbortError'' then s\<lparr>error := Some abort_message\<rparr>
            else s\<lparr>error := Some (err_text name msg)\<rparr>
        | Resp r \<Rightarrow>
            if r_status r = 202
            then
              let jid = (case parsed r of None \<Rightarrow> None | Some b \<Rightarrow> js_or (b_job_id b) (b_job b));
                  s1 = s\<lparr>pendingJob := Some \<lparr>jobId = (if truthy jid then jid else None),
                           status = ''queued'',
                           message = Some (or_str (case parsed r of None \<Rightarrow> None
                                                   | Some b \<Rightarrow> b_message b)
                                                  ''Queued for analysis'')\<rparr>,
                         loading := False\<rparr>
              in if truthy jid then pollJobStatus (the jid) 120 s1
                 else s1\<lparr>error := Some ''Analysis queued but server returned no job id''\<rparr>
            else if ok r
            then (if mountedRef s
                  then s\<lparr>analysis := (case parsed r of
                            Some b \<Rightarrow> Some b
                          | None \<Rightarrow> if r_text r \<noteq> [] then Some (summary_only (r_text r))
                                    else None)\<rparr>
                  else s)
            else s\<lparr>error := Some (server_message r)\<rparr>)"

definition busy_message :: string where
  "busy_message = ''An analysis is already queued or running for this upload. Please wait or cancel the existing job.''"

text \<open>
  \<open>pendingJob && pendingJob.status && pendingJob.status !== "done" &&
  pendingJob.status !== "cancelled"\<close>
\<close>

definition guard_busy :: "pending option \<Rightarrow> bool" where
  "guard_busy pj = (case pj of None \<Rightarrow> False
                    | Some p \<Rightarrow> status p \<noteq> [] \<and> status p \<noteq> ''done'' \<and> status p \<noteq> ''cancelled'')"

definition startAnalysis :: "ai_state \<Rightarrow> ai_state" where
  "startAnalysis s =
     (let s1 = s\<lparr>error := None\<rparr> in
      if \<not> truthy (lastFileId s1)
      then s1\<lparr>error := Some ''No uploaded file found. Upload first.''\<rparr>
      else if guard_busy (pendingJob s1) then s1\<lparr>error := Some busy_message\<rparr>
      else runAnalysisForFile_begin (lastFileId s1) (s1\<lparr>loading := True\<rparr>))"


definition onClickViewLast :: "ai_state \<Rightarrow> ai_state" where
  "onClickViewLast s =
     (if truthy (lastFileId s) then runAnalysisForFile_begin (lastFileId s) s
      else s\<lparr>error := Some ''No uploaded file found. Upload first.''\<rparr>)"

text \<open>The effect that asks \<open>/files/last\<close> for the most recent upload, once it settles.\<close>

definition lastFile_settle :: "fetched \<Rightarrow> ai_state \<Rightarrow> ai_state" where
  "lastFile_settle f s =
     (case f of
        Threw name msg \<Rightarrow>
          (if mountedRef s then s\<lparr>lastFileId := None, error := Some msg\<rparr>
           else s\<lparr>lastFileId := None\<rparr>)
      | Resp r \<Rightarrow>
          if \<not> ok r
          then (if r_status r = 404 then s\<lparr>lastFileId := None\<rparr>
                else if mountedRef s
                then s\<lparr>lastFileId := None,
                       error := Some (if r_text r \<noteq> [] then r_text r else status_line r)\<rparr>
                else s\<lparr>lastFileId := None\<rparr>)
          else
            let fid = (case r_json r of None \<Rightarrow> None | Some b \<Rightarrow> js_or (b_file_id b) (b_id b))
            in s\<lparr>lastFileId := (if truthy fid then fid else None)\<rparr>)"

section \<open>Events\<close>

text \<open>
  The page is single-threaded and event-driven: each event below runs one piece of
  code to completion. A timer fires only while it is armed, and a network call settles
  at most once. \<open>ClickStart\<close> runs \<open>startAnalysis\<close> whether or not the button is
  enabled; the handler has its own guard.
\<close>

datatype event =
    LastFileSettles fetched
  | ClickStart
  | ClickViewLast
  | ClickRerun
  | ClickPollStatus
  | ClickCancel
  | Unmount
  | TimerFires nat
  | Settles nat fetched

definition on_settle :: "nat \<Rightarrow> fetched \<Rightarrow> ai_state \<Rightarrow> ai_state" where
  "on_settle i f s =
     (if i < length (sent s) \<and> i \<notin> set (settled s)
      then (case sent s ! i of
              Analyze fid \<Rightarrow> runAnalysisForFile_settle f
            | StatusCheck l j \<Rightarrow> doPoll_status l f
            | ResultFetch l j \<Rightarrow> doPoll_result l f) (s\<lparr>settled := i # settled s\<rparr>)
      else s)"

definition unmount :: "ai_state \<Rightarrow> ai_state" where
  "unmount s = (case pollRef s of None \<Rightarrow> s\<lparr>mountedRef := False\<rparr>
                | Some h \<Rightarrow> clearInterval h (s\<lparr>mountedRef := False\<rparr>))"

definition clickPollStatus :: "ai_state \<Rightarrow> ai_state" where
  "clickPollStatus s =
     (case pendingJob s of None \<Rightarrow> s
      | Some p \<Rightarrow> if truthy (jobId p) then pollJobStatus (the (jobId p)) 120 s else s)"

fun step :: "ai_state \<Rightarrow> event \<Rightarrow> ai_state" where
  "step s (LastFileSettles f) = lastFile_settle f s"
| "step s ClickStart = startAnalysis s"
| "step s ClickViewLast = onClickViewLast s"
| "step s ClickRerun = runAnalysisForFile_begin (lastFileId s) s"
| "step s ClickPollStatus = clickPollStatus s"
| "step s ClickCancel = cancelPoll s"
| "step s Unmount = unmount s"
| "step s (TimerFires h) =
     (if h < length (loops s) \<and> timer_on (loops s ! h) then doPoll_begin h s else s)"
| "step s (Settles i f) = on_settle i f s"

definition run :: "ai_state \<Rightarrow> event list \<Rightarrow> ai_state" where
  "run s evs = foldl step s evs"

text \<open>
  One browser session. Every visit of the analysis page mounts a new instance of the
  component, with its own state cells, its own \<open>mountedRef\<close> and its own \<open>pollRef\<close>;
  leaving the page unmounts the instance, but the network calls it has pending and
  the timers it has armed belong to the browser and live on. A session is the list of
  the instances mounted so far, and an event is delivered to one of them.
\<close>

datatype session_event = Mount | At nat event

fun session_step :: "ai_state list \<Rightarrow> session_event \<Rightarrow> ai_state list" where
  "session_step ss Mount = ss @ [init]"
| "session_step ss (At k e) = (if k < length ss then ss[k := step (ss ! k) e] else ss)"

definition session_run :: "ai_state list \<Rightarrow> session_event list \<Rightarrow> ai_state list" where
  "session_run ss evs = foldl session_step ss evs"

section \<open>Schedules, invariants and sample traffic\<close>

text \<open>
  The orderly schedule of the poller, one round for each answer of the list: the most
  recent network call settles with that answer, then the timer of loop \<open>l\<close> fires.
\<close>

fun in_turn :: "nat \<Rightarrow> fetched list \<Rightarrow> ai_state \<Rightarrow> ai_state" where
  "in_turn l [] s = s"
| "in_turn l (f # fs) s =
     in_turn l fs (step (step s (Settles (length (sent s) - 1) f)) (TimerFires l))"

definition no_timer_armed :: "ai_state \<Rightarrow> bool" where
  "no_timer_armed s \<longleftrightarrow> (\<forall>i<length (loops s). \<not> timer_on (loops s ! i))"

text \<open>A status fetch that fails below the job level: it rejects, or answers outside 2xx.\<close>

definition transport_failure :: "fetched \<Rightarrow> bool" where
  "transport_failure f = (case f of Threw name msg \<Rightarrow> True | Resp r \<Rightarrow> \<not> ok r)"

definition poll_error_text :: "fetched \<Rightarrow> string" where
  "poll_error_text f = (case f of
       Threw name msg \<Rightarrow> ''Polling network error: '' @ err_text name msg
     | Resp r \<Rightarrow> ''Polling error: '' @ server_message r)"

text \<open>
  \<open>evolves s s'\<close>: loops are only added, a timer that is off stays off, and a status
  check of an existing loop is only issued while that loop's timer is armed.
\<close>

definition evolves :: "ai_state \<Rightarrow> ai_state \<Rightarrow> bool" where
  "evolves s s' \<longleftrightarrow>
     length (loops s) \<le> length (loops s') \<and>
     (\<forall>i<length (loops s). timer_on (loops s' ! i) \<longrightarrow> timer_on (loops s ! i)) \<and>
     (\<exists>new. sent s' = sent s @ new \<and>
        (\<forall>l j. StatusCheck l j \<in> set new \<longrightarrow> l < length (loops s) \<longrightarrow> timer_on (loops s ! l)))"

text \<open>Only the timer that \<open>pollRef\<close> holds can be armed.\<close>

definition one_timer :: "ai_state \<Rightarrow> bool" where
  "one_timer s \<longleftrightarrow> (\<forall>i<length (loops s). timer_on (loops s ! i) \<longrightarrow> pollRef s = Some i)"

text \<open>Every status check and result fetch names an existing loop and that loop's job.\<close>

definition req_ok :: "poll_loop list \<Rightarrow> request \<Rightarrow> bool" where
  "req_ok ls q = (case q of Analyze fid \<Rightarrow> True
                  | StatusCheck l j \<Rightarrow> l < length ls \<and> l_jobId (ls ! l) = j
                  | ResultFetch l j \<Rightarrow> l < length ls \<and> l_jobId (ls ! l) = j)"

definition sent_ok :: "ai_state \<Rightarrow> bool" where
  "sent_ok s \<longleftrightarrow> (\<forall>q\<in>set (sent s). req_ok (loops s) q) \<and> (\<forall>i\<in>set (settled s). i < length (sent s))"

definition same_jobs :: "poll_loop list \<Rightarrow> poll_loop list \<Rightarrow> bool" where
  "same_jobs ls ls' \<longleftrightarrow> length ls \<le> length ls' \<and> (\<forall>i<length ls. l_jobId (ls' ! i) = l_jobId (ls ! i))"

text \<open>
  The two phases of a loop under the orderly schedule: still polling after \<open>a\<close>
  checks, and given up after \<open>a\<close> checks, the last answer having carried the status
  \<open>st\<close>.
\<close>

definition polling_at ::
  "request list \<Rightarrow> bool \<Rightarrow> nat \<Rightarrow> string \<Rightarrow> int \<Rightarrow> nat \<Rightarrow> ai_state \<Rightarrow> bool" where
  "polling_at base mnt l jid n a t \<longleftrightarrow>
     1 \<le> a \<and> length (loops t) = Suc l \<and>
     loops t ! l = \<lparr>l_jobId = jid, attempts = int a, maxAttempts = n, timer_on = True\<rparr> \<and>
     (\<forall>i<l. \<not> timer_on (loops t ! i)) \<and> pollRef t = Some l \<and>
     sent t = base @ replicate a (StatusCheck l jid) \<and>
     (\<forall>i\<in>set (settled t). i < length (sent t) - 1) \<and>
     mountedRef t = mnt"

definition gave_up ::
  "request list \<Rightarrow> bool \<Rightarrow> nat \<Rightarrow> string \<Rightarrow> string \<Rightarrow> nat \<Rightarrow> ai_state \<Rightarrow> bool" where
  "gave_up base mnt l jid st a t \<longleftrightarrow>
     1 \<le> a \<and> length (loops t) = Suc l \<and> no_timer_armed t \<and> pollRef t = None \<and>
     sent t = base @ replicate a (StatusCheck l jid) \<and>
     length (sent t) - 1 \<in> set (settled t) \<and>
     error t = Some timeout_message \<and>
     (mnt \<longrightarrow> (\<exists>p. pendingJob t = Some p \<and> status p = st))"

text \<open>
  Sample traffic: the last upload is \<open>f1\<close>, the analysis request is accepted as job
  \<open>j1\<close>, and a status reply carries the given status.
\<close>

definition json_response :: "nat \<Rightarrow> string \<Rightarrow> body \<Rightarrow> response" where
  "json_response code txt b = \<lparr>r_status = code, r_statusText = [], r_text = txt, r_json = Some b\<rparr>"

definition uploaded :: fetched where
  "uploaded = Resp (json_response 200 ''{file_id:f1}'' (no_body\<lparr>b_file_id := Some ''f1''\<rparr>))"

definition queued_ack :: fetched where
  "queued_ack = Resp (json_response 202 ''{job_id:j1}'' (no_body\<lparr>b_job_id := Some ''j1''\<rparr>))"

definition status_reply :: "string \<Rightarrow> response" where
  "status_reply st = json_response 200 (''{status:'' @ st @ ''}'') (no_body\<lparr>b_status := Some st\<rparr>)"

definition polling_j1 :: "event list" where
  "polling_j1 = [LastFileSettles uploaded, ClickStart, Settles 0 queued_ack]"

text \<open>
  Two visits of the page. On the first the user starts the analysis and leaves before
  the request is answered; the answer, job \<open>j1\<close>, arrives after the unmount. On the
  second visit the analysis is started again and accepted as job \<open>j2\<close>. Then the
  interval timers of both instances fire.
\<close>

definition queued_ack2 :: fetched where
  "queued_ack2 = Resp (json_response 202 ''{job_id:j2}'' (no_body\<lparr>b_job_id := Some ''j2''\<rparr>))"

definition two_visits :: "session_event list" where
  "two_visits =
     [Mount, At 0 (LastFileSettles uploaded), At 0 ClickStart, At 0 Unmount,
      At 0 (Settles 0 queued_ack),
      Mount, At 1 (LastFileSettles uploaded), At 1 ClickStart, At 1 (Settles 0 queued_ack2),
      At 0 (TimerFires 0), At 1 (TimerFires 0)]"

section \<open>Log rows\<close>

text \<open>
  Rows and the values of their fields are JSON values, as \<open>JSON.parse\<close> builds them.
  Numbers are the numbers of the JavaScript engine; their type \<open>'n\<close> is a parameter
  (IEEE doubles with \<open>+0\<close> and \<open>-0\<close> taken as one value; \<open>JSON.parse\<close> yields no
  \<open>NaN\<close>), and equality on \<open>'n\<close> is the engine's \<open>SameValueZero\<close>. \<open>JUndef\<close>
  is what reading a missing property yields. An object is given by its properties, each
  name once, in the order the engine enumerates them. A log row is a JSON object. A
  string stands for well-formed text, as the bytes of its UTF-8 form; whatever depends
  on the UTF-16 code units of the engine is among the parameters below.
\<close>

datatype 'n jsval = JUndef | JNull | JBool bool | JNum 'n | JStr string
  | JArr "'n jsval list" | JObj "(string \<times> 'n jsval) list"

type_synonym 'n logrow = "(string \<times> 'n jsval) list"

text \<open>
  What the engine does with numbers, with text and with dates is taken as a parameter:
  \<open>Boolean(n)\<close>, \<open>String(n)\<close>, \<open>n > k\<close> for an integer literal \<open>k\<close> of the source,
  \<open>new Date(n).getTime()\<close> and \<open>new Date(n * 1000).getTime()\<close> on a number \<open>n\<close>
  (\<open>None\<close> for \<open>NaN\<close>, an invalid date), \<open>new Date(s).getTime()\<close> on a string,
  \<open>JSON.stringify\<close> on a row, \<open>toLowerCase\<close>, \<open>toUpperCase\<close> and \<open>trim\<close>, and
  \<open>s.slice(0, k)\<close>, the first \<open>k\<close> code units of a string.
\<close>

record 'n runtime =
  numTruthy :: "'n \<Rightarrow> bool"
  numString :: "'n \<Rightarrow> string"
  numAbove :: "'n \<Rightarrow> int \<Rightarrow> bool"
  numDate :: "'n \<Rightarrow> int option"
  numDate1000 :: "'n \<Rightarrow> int option"
  dateParse :: "string \<Rightarrow> int option"
  stringify :: "'n logrow \<Rightarrow> string"
  lowerCase :: "string \<Rightarrow> string"
  upperCase :: "string \<Rightarrow> string"
  trimText :: "string \<Rightarrow> string"
  sliceText :: "nat \<Rightarrow> string \<Rightarrow> string"

definition get_prop :: "(string \<times> 'n jsval) list \<Rightarrow> string \<Rightarrow> 'n jsval" where
  "get_prop kvs k = (case map_of kvs k of None \<Rightarrow> JUndef | Some v \<Rightarrow> v)"

definition fld :: "'n logrow \<Rightarrow> string \<Rightarrow> 'n jsval" where
  "fld r k = get_prop r k"

text \<open>
  \<open>v.k\<close> on a value that is not null or undefined: a property of an object; on a
  number, a string, a boolean or an array none of the names the pages read exists.
\<close>

definition prop_of :: "'n jsval \<Rightarrow> string \<Rightarrow> 'n jsval" where
  "prop_of v k = (case v of JObj kvs \<Rightarrow> get_prop kvs k | _ \<Rightarrow> JUndef)"

definition truthy_v :: "'n runtime \<Rightarrow> 'n jsval \<Rightarrow> bool" where
  "truthy_v rt v = (case v of JUndef \<Rightarrow> False | JNull \<Rightarrow> False | JBool b \<Rightarrow> b
                    | JNum n \<Rightarrow> numTruthy rt n | JStr s \<Rightarrow> s \<noteq> []
                    | JArr xs \<Rightarrow> True | JObj kvs \<Rightarrow> True)"

text \<open>\<open>a || b\<close> and \<open>a ?? b\<close> on values.\<close>

definition or_v :: "'n runtime \<Rightarrow> 'n jsval \<Rightarrow> 'n jsval \<Rightarrow> 'n jsval" where
  "or_v rt a b = (if truthy_v rt a then a else b)"

definition nullish :: "'n jsval \<Rightarrow> bool" where
  "nullish v = (v = JUndef \<or> v = JNull)"

definition coalesce :: "'n jsval \<Rightarrow> 'n jsval \<Rightarrow> 'n jsval" where
  "coalesce a b = (if nullish a then b else a)"

text \<open>The decimal digits of an integer, as a time value prints in a template literal.\<close>

definition decimal_int :: "int \<Rightarrow> string" where
  "decimal_int n = (if n < 0 then ''-'' @ decimal (nat (- n)) else decimal (nat n))"

fun join_with :: "string \<Rightarrow> string list \<Rightarrow> string" where
  "join_with sep [] = []"
| "join_with sep [x] = x"
| "join_with sep (x # y # ys) = x @ sep @ join_with sep (y # ys)"

text \<open>
  \<open>String(v)\<close>, also the conversion inside a template literal and \<open>v.toString()\<close>. An
  array prints its elements joined by commas, a null or undefined element as nothing;
  an object prints as \<open>[object Object]\<close>.
\<close>

fun to_str :: "'n runtime \<Rightarrow> 'n jsval \<Rightarrow> string" where
  "to_str rt JUndef = ''undefined''"
| "to_str rt JNull = ''null''"
| "to_str rt (JBool b) = (if b then ''true'' else ''false'')"
| "to_str rt (JNum n) = numString rt n"
| "to_str rt (JStr s) = s"
| "to_str rt (JArr xs) =
     join_with '','' (map (\<lambda>v. if v = JUndef \<or> v = JNull then [] else to_str rt v) xs)"
| "to_str rt (JObj kvs) = ''[object Object]''"

text \<open>\<open>[a, b, c].join(sep)\<close>: null and undefined join as empty.\<close>

definition join_vals :: "'n runtime \<Rightarrow> string \<Rightarrow> 'n jsval list \<Rightarrow> string" where
  "join_vals rt sep vs = join_with sep (map (\<lambda>v. if nullish v then [] else to_str rt v) vs)"

text \<open>\<open>s.includes(n)\<close> on strings.\<close>

fun starts_with :: "string \<Rightarrow> string \<Rightarrow> bool" where
  "starts_with s [] = True"
| "starts_with [] (c # n) = False"
| "starts_with (d # s) (c # n) = (d = c \<and> starts_with s n)"

fun includes_str :: "string \<Rightarrow> string \<Rightarrow> bool" where
  "includes_str [] n = (n = [])"
| "includes_str (d # s) n = (starts_with (d # s) n \<or> includes_str s n)"

section \<open>The logs page\<close>

text \<open>
  \<open>dedupeLogs\<close>: the key of a row is
  \<open>r.id ?? `${r.timestamp || ""}::${r.message || r.raw || ""}`\<close>; a row is kept when
  its key is not in the set \<open>seen\<close>. An id that is an array or an object is a
  reference of its own in every parsed row, the same as no key seen before.
\<close>

definition logKey :: "'n runtime \<Rightarrow> 'n logrow \<Rightarrow> 'n jsval" where
  "logKey rt r = coalesce (fld r ''id'')
     (JStr (to_str rt (or_v rt (fld r ''timestamp'') (JStr [])) @ ''::'' @
            to_str rt (or_v rt (or_v rt (fld r ''message'') (fld r ''raw'')) (JStr []))))"

definition is_ref :: "'n jsval \<Rightarrow> bool" where
  "is_ref v = (case v of JArr xs \<Rightarrow> True | JObj kvs \<Rightarrow> True | _ \<Rightarrow> False)"

fun dedupe_loop ::
  "'n runtime \<Rightarrow> 'n jsval set \<Rightarrow> 'n logrow list \<Rightarrow> 'n logrow list \<Rightarrow> 'n logrow list" where
  "dedupe_loop rt seen out [] = out"
| "dedupe_loop rt seen out (r # arr) =
     (let key = logKey rt r
      in if is_ref key \<or> key \<notin> seen then dedupe_loop rt (insert key seen) (out @ [r]) arr
         else dedupe_loop rt seen out arr)"

definition dedupeLogs :: "'n runtime \<Rightarrow> 'n logrow list \<Rightarrow> 'n logrow list" where
  "dedupeLogs rt arr = dedupe_loop rt {} [] arr"



text \<open>
  The client-side filter predicate in the words of the specification (section 4.3):
  a row matches if (a) there is no upload filter or its upload id matches, and (b)
  there is no level filter or the level value, checked across several candidate
  fields, equals or contains the filter token case-insensitively, and (c) there is no
  free-text query or the query appears case-insensitively in the concatenation of the
  message, raw, level and service fields.
\<close>

definition upload_of :: "'n runtime \<Rightarrow> 'n logrow \<Rightarrow> string" where
  "upload_of rt r =
     to_str rt (if \<not> nullish (fld r ''upload_id'') then fld r ''upload_id''
                else if \<not> nullish (fld r ''uploadId'') then fld r ''uploadId''
                else if \<not> nullish (fld r ''file_id'') then fld r ''file_id''
                else if \<not> nullish (fld r ''fileId'') then fld r ''fileId'' else JStr [])"

definition spec_filter_predicate ::
  "'n runtime \<Rightarrow> string \<Rightarrow> string \<Rightarrow> string \<Rightarrow> 'n logrow \<Rightarrow> bool" where
  "spec_filter_predicate rt sel lvl qtext r \<longleftrightarrow>
     (sel = [] \<or> upload_of rt r = sel) \<and>
     (lvl = [] \<or>
      (\<exists>k\<in>{''level'', ''level_name'', ''severity'', ''raw'', ''message''}.
          truthy_v rt (fld r k) \<and>
          (upperCase rt (to_str rt (fld r k)) = upperCase rt lvl \<or>
           includes_str (upperCase rt (to_str rt (fld r k))) (upperCase rt lvl)))) \<and>
     (lowerCase rt qtext = [] \<or>
      includes_str
        (lowerCase rt (join_vals rt '' '' [fld r ''message'', fld r ''raw'', fld r ''level'',
                                            fld r ''service'']))
        (lowerCase rt qtext))"

text \<open>
  The parameters of one list fetch, and the record kept of every fetch issued: its
  sequence token, whether it asked for server filtering, its query string, whether
  its controller has been aborted and whether it has been answered. \<open>origin\<close> notes
  which code issued the fetch: the filter effect (directly or by its debounce timer),
  or the refresh that follows the delete request with the given number.
\<close>

record params =
  p_limit :: nat
  p_upload_id :: "string option"
  p_q :: "string option"

datatype fetch_origin = ByEffect | ByRefresh nat

record list_fetch =
  token :: nat
  useServerFiltering :: bool
  qs :: "(string \<times> string) list"
  aborted :: bool
  answered :: bool
  origin :: fetch_origin

text \<open>
  A delete request that \<open>handleDeleteUpload\<close> has sent. The handler and the
  \<open>refreshUploadsAndLogs\<close> it calls afterwards are closures of the render in which
  Delete was clicked: they see the \<open>limit\<close>, \<open>selectedUploadId\<close> and
  \<open>serverFilteringSupported\<close> of that render. \<open>d_open\<close> holds while the request is
  waiting for its answer.
\<close>

record pending_delete =
  d_limit :: nat
  d_selected :: string
  d_flag :: bool
  d_open :: bool

text \<open>
  The state of the page. The cells \<open>error\<close> and \<open>q\<close> of the source are \<open>error'\<close> and
  \<open>q'\<close> here. \<open>searchTimeout\<close> holds what the pending debounce timer will call
  \<open>fetchLogsFromServer\<close> with; \<open>inflightController\<close> holds the token of the fetch whose
  controller it is. The list of uploads, which the page only displays, is left out.
\<close>

record 'n logs_page =
  logs :: "'n logrow list"
  loadingLogs :: bool
  error' :: "string option"
  serverFilteringSupported :: bool
  q' :: string
  levelFilter :: string
  selectedUploadId :: string
  limit :: nat
  searchTimeout :: "(bool \<times> params) option"
  inflightController :: "nat option"
  fetchIdRef :: nat
  fetches :: "list_fetch list"
  deletes :: "pending_delete list"

definition abort_fetch :: "nat \<Rightarrow> list_fetch list \<Rightarrow> list_fetch list" where
  "abort_fetch t fs = map (\<lambda>f. if token f = t then f\<lparr>aborted := True\<rparr> else f) fs"

definition query_string :: "bool \<Rightarrow> params \<Rightarrow> (string \<times> string) list" where
  "query_string useSF ps =
     (if p_limit ps \<noteq> 0 then [(''limit'', decimal (p_limit ps))] else []) @
     (if useSF
      then (if truthy (p_upload_id ps) then [(''upload_id'', the (p_upload_id ps))] else []) @
           (if truthy (p_q ps) then [(''q'', the (p_q ps))] else [])
      else [])"

text \<open>\<open>fetchLogsFromServer\<close> up to its fetch.\<close>

definition fetchLogsFromServer_begin ::
  "fetch_origin \<Rightarrow> bool \<Rightarrow> params \<Rightarrow> 'n logs_page \<Rightarrow> 'n logs_page" where
  "fetchLogsFromServer_begin org useSF ps s =
     (let thisFetchId = fetchIdRef s + 1;
          fs = (case inflightController s of None \<Rightarrow> fetches s
                | Some t \<Rightarrow> abort_fetch t (fetches s))
      in s\<lparr>fetchIdRef := thisFetchId, inflightController := Some thisFetchId,
            loadingLogs := True, error' := None,
            fetches := fs @ [\<lparr>token = thisFetchId, useServerFiltering = useSF,
                               qs = query_string useSF ps, aborted = False, answered = False,
                               origin = org\<rparr>]\<rparr>)"

text \<open>
  How a list fetch settles: a response with its status code and, when the body is a
  JSON array, its rows; or a rejection with the error's name.
\<close>

datatype 'n list_outcome = Reply nat "'n logrow list option" | Rejected string

definition clear_loading_if_latest :: "nat \<Rightarrow> 'n logs_page \<Rightarrow> 'n logs_page" where
  "clear_loading_if_latest thisFetchId s =
     (if thisFetchId = fetchIdRef s then s\<lparr>loadingLogs := False\<rparr> else s)"

text \<open>\<open>fetchLogsFromServer\<close> from the settled fetch on, for the call with the given token.\<close>

definition fetchLogsFromServer_settle ::
  "'n runtime \<Rightarrow> list_fetch \<Rightarrow> 'n list_outcome \<Rightarrow> 'n logs_page \<Rightarrow> 'n logs_page" where
  "fetchLogsFromServer_settle rt f out s =
     (let thisFetchId = token f in
      case out of
        Rejected name \<Rightarrow>
          clear_loading_if_latest thisFetchId
            (if name \<noteq> ''AbortError'' then s\<lparr>error' := Some ''Failed to load logs''\<rparr> else s)
      | Reply code body \<Rightarrow>
          if code \<in> {404, 400, 422} \<and> useServerFiltering f
          then clear_loading_if_latest thisFetchId (s\<lparr>serverFilteringSupported := False\<rparr>)
          else if \<not> (200 \<le> code \<and> code \<le> 299)
          then clear_loading_if_latest thisFetchId (s\<lparr>error' := Some ''Failed to load logs''\<rparr>)
          else
            let incoming = (case body of None \<Rightarrow> [] | Some rows \<Rightarrow> rows)
            in if thisFetchId \<noteq> fetchIdRef s then s
               else clear_loading_if_latest thisFetchId (s\<lparr>logs := dedupeLogs rt incoming\<rparr>))"

text \<open>
  The effect on \<open>[limit, selectedUploadId, q, serverFilteringSupported]\<close> and its
  cleanup. When one of the four changes, the cleanup of the previous run is followed by
  a new run. A state change and the run of the effect it causes are one step.
\<close>

definition filter_effect :: "'n runtime \<Rightarrow> 'n logs_page \<Rightarrow> 'n logs_page" where
  "filter_effect rt s =
     (let s1 = s\<lparr>searchTimeout := None\<rparr>;
          ps = \<lparr>p_limit = limit s,
                p_upload_id = (if selectedUploadId s \<noteq> [] then Some (selectedUploadId s) else None),
                p_q = (if trimText rt (q' s) \<noteq> [] then Some (trimText rt (q' s)) else None)\<rparr>
      in if q' s \<noteq> []
         then s1\<lparr>searchTimeout := Some (serverFilteringSupported s, ps)\<rparr>
         else fetchLogsFromServer_begin ByEffect (serverFilteringSupported s) ps s1)"

definition effect_cleanup :: "'n logs_page \<Rightarrow> 'n logs_page" where
  "effect_cleanup s =
     s\<lparr>searchTimeout := None,
       fetches := (case inflightController s of None \<Rightarrow> fetches s
                   | Some t \<Rightarrow> abort_fetch t (fetches s))\<rparr>"

definition deps :: "'n logs_page \<Rightarrow> nat \<times> string \<times> string \<times> bool" where
  "deps s = (limit s, selectedUploadId s, q' s, serverFilteringSupported s)"

definition rerender :: "'n runtime \<Rightarrow> 'n logs_page \<Rightarrow> 'n logs_page \<Rightarrow> 'n logs_page" where
  "rerender rt before s =
     (if deps s = deps before then s else filter_effect rt (effect_cleanup s))"

text \<open>
  \<open>handleDeleteUpload(uploadId)\<close>, once the user has confirmed, up to its delete
  request: the optimistic removal of the upload's rows from \<open>logs\<close>, the reset of the
  selected upload when it is the deleted one, and the request, remembered with what
  the closures of this render see.
\<close>

definition handleDeleteUpload_begin ::
  "'n runtime \<Rightarrow> 'n jsval \<Rightarrow> 'n logs_page \<Rightarrow> 'n logs_page" where
  "handleDeleteUpload_begin rt uploadId s =
     s\<lparr>logs := filter (\<lambda>x. to_str rt (fld x ''upload_id'') \<noteq> to_str rt uploadId) (logs s),
       selectedUploadId := (if selectedUploadId s = to_str rt uploadId then []
                            else selectedUploadId s),
       deletes := deletes s @ [\<lparr>d_limit = limit s, d_selected = selectedUploadId s,
                                 d_flag = serverFilteringSupported s, d_open = True\<rparr>]\<rparr>"

text \<open>
  The delete request has been answered (with any status) and \<open>refreshUploadsAndLogs\<close>
  has fetched the uploads again: it calls \<open>fetchLogsFromServer\<close> with the limit, the
  selected upload and the filtering flag of the render in which Delete was clicked,
  and with no search text.
\<close>

definition refreshUploadsAndLogs :: "nat \<Rightarrow> 'n logs_page \<Rightarrow> 'n logs_page" where
  "refreshUploadsAndLogs i s =
     (let d = deletes s ! i
      in fetchLogsFromServer_begin (ByRefresh i) (d_flag d)
           \<lparr>p_limit = d_limit d,
            p_upload_id = (if d_selected d \<noteq> [] then Some (d_selected d) else None),
            p_q = None\<rparr>
           (s\<lparr>deletes := (deletes s)[i := d\<lparr>d_open := False\<rparr>]\<rparr>))"

text \<open>
  The events of the page: the four filter controls, the debounce timer, the settling
  of a list fetch, a confirmed click on Delete for the upload with the given id, the
  answer to a delete request (followed by the refresh) or its rejection by the network
  (the handler ends without a refresh), and leaving the page and visiting it again,
  which mounts a new instance with fresh state cells and refs.
\<close>

datatype 'n logs_event =
    SetQ string
  | SetLevelFilter string
  | SetSelectedUploadId string
  | SetLimit nat
  | SearchTimeoutFires
  | ListSettles nat "'n list_outcome"
  | ClickDelete "'n jsval"
  | DeleteAnswered nat
  | DeleteRejected nat
  | Remount

definition find_fetch :: "nat \<Rightarrow> list_fetch list \<Rightarrow> list_fetch option" where
  "find_fetch t fs = find (\<lambda>f. token f = t \<and> \<not> answered f) fs"

definition mark_answered :: "nat \<Rightarrow> list_fetch list \<Rightarrow> list_fetch list" where
  "mark_answered t fs = map (\<lambda>f. if token f = t then f\<lparr>answered := True\<rparr> else f) fs"

text \<open>The page after its first render: the effect has run once.\<close>

definition logs_mounted :: "'n runtime \<Rightarrow> 'n logs_page" where
  "logs_mounted rt = filter_effect rt
     \<lparr>logs = [], loadingLogs = False, error' = None, serverFilteringSupported = True,
      q' = [], levelFilter = [], selectedUploadId = [], limit = 500,
      searchTimeout = None, inflightController = None, fetchIdRef = 0, fetches = [],
      deletes = []\<rparr>"

fun logs_step :: "'n runtime \<Rightarrow> 'n logs_page \<Rightarrow> 'n logs_event \<Rightarrow> 'n logs_page" where
  "logs_step rt s (SetQ v) = rerender rt s (s\<lparr>q' := v\<rparr>)"
| "logs_step rt s (SetLevelFilter v) = s\<lparr>levelFilter := v\<rparr>"
| "logs_step rt s (SetSelectedUploadId v) = rerender rt s (s\<lparr>selectedUploadId := v\<rparr>)"
| "logs_step rt s (SetLimit n) = rerender rt s (s\<lparr>limit := n\<rparr>)"
| "logs_step rt s SearchTimeoutFires =
     (case searchTimeout s of None \<Rightarrow> s
      | Some (useSF, ps) \<Rightarrow>
          fetchLogsFromServer_begin ByEffect useSF ps (s\<lparr>searchTimeout := None\<rparr>))"
| "logs_step rt s (ListSettles t out) =
     (case find_fetch t (fetches s) of None \<Rightarrow> s
      | Some f \<Rightarrow>
          rerender rt s (fetchLogsFromServer_settle rt f out
                           (s\<lparr>fetches := mark_answered t (fetches s)\<rparr>)))"
| "logs_step rt s (ClickDelete uploadId) = rerender rt s (handleDeleteUpload_begin rt uploadId s)"
| "logs_step rt s (DeleteAnswered i) =
     (if i < length (deletes s) \<and> d_open (deletes s ! i) then refreshUploadsAndLogs i s else s)"
| "logs_step rt s (DeleteRejected i) =
     (if i < length (deletes s) \<and> d_open (deletes s ! i)
      then s\<lparr>deletes := (deletes s)[i := (deletes s ! i)\<lparr>d_open := False\<rparr>]\<rparr> else s)"
| "logs_step rt s Remount = logs_mounted rt"

definition logs_run :: "'n runtime \<Rightarrow> 'n logs_page \<Rightarrow> 'n logs_event list \<Rightarrow> 'n logs_page" where
  "logs_run rt s evs = foldl (logs_step rt) s evs"




text \<open>
  What identifies a fetch (token, filtering flag, query string, origin), the
  bookkeeping invariant of the page, and a fetch that carries no filter.
\<close>

definition sig :: "list_fetch \<Rightarrow> nat \<times> bool \<times> (string \<times> string) list \<times> fetch_origin" where
  "sig f = (token f, useServerFiltering f, qs f, origin f)"





section \<open>The dashboard: timestamps, keys and the cached rows\<close>

text \<open>
  \<open>getTimestampFromLog\<close>, the branch for a number: above 1e12 it is taken as
  milliseconds, above 1e9 as seconds, else as milliseconds; an invalid date lets the
  loop go on to the next candidate.
\<close>

definition time_of_number :: "'n runtime \<Rightarrow> 'n \<Rightarrow> int option" where
  "time_of_number rt c =
     (if numAbove rt c 1000000000000 then numDate rt c
      else if numAbove rt c 1000000000 then numDate1000 rt c
      else numDate rt c)"

text \<open>\<open>new Date(t)\<close> on an integer is a valid date within 8.64e15 ms of the epoch.\<close>

definition max_time :: int where
  "max_time = 8640000000000000"

definition valid_time :: "int \<Rightarrow> bool" where
  "valid_time t \<longleftrightarrow> - max_time \<le> t \<and> t \<le> max_time"

definition all_digits :: "string \<Rightarrow> bool" where
  "all_digits s \<longleftrightarrow> s \<noteq> [] \<and> list_all (\<lambda>c. 48 \<le> (of_char c :: nat) \<and> (of_char c :: nat) \<le> 57) s"

definition digits_value :: "string \<Rightarrow> nat" where
  "digits_value s = foldl (\<lambda>a c. 10 * a + (of_char c - 48)) 0 s"

text \<open>
  The branch for a string: trimmed; all digits means a number of seconds when it has
  ten digits and of milliseconds otherwise; failing that, whatever \<open>new Date(s)\<close>
  makes of it. \<open>Number(s)\<close> on a string of digits is exact up to 2^53, which is beyond
  the largest valid time, and rounds to a number beyond it above, so that the date is
  valid exactly when the integer the digits spell is a valid time.
\<close>

definition time_of_string :: "'n runtime \<Rightarrow> string \<Rightarrow> int option" where
  "time_of_string rt c =
     (let s = trimText rt c;
          fromDigits =
            (if all_digits s
             then (let n = int (digits_value s);
                       t = (if length s = 10 then n * 1000 else n)
                   in if valid_time t then Some t else None)
             else None)
      in case fromDigits of Some t \<Rightarrow> Some t | None \<Rightarrow> dateParse rt s)"

definition time_of_value :: "'n runtime \<Rightarrow> 'n jsval \<Rightarrow> int option" where
  "time_of_value rt v = (case v of JNum c \<Rightarrow> time_of_number rt c
                         | JStr c \<Rightarrow> time_of_string rt c | _ \<Rightarrow> None)"

text \<open>
  The candidates: seven fields of the row, then, when \<open>log.meta\<close> is truthy, four
  properties of it, and when \<open>log.payload\<close> is truthy, two of it.
\<close>

definition candidates :: "'n runtime \<Rightarrow> 'n logrow \<Rightarrow> 'n jsval list" where
  "candidates rt log =
     map (fld log) [''timestamp'', ''created_at'', ''ts'', ''time'', ''_time'', ''date'', ''when''] @
     (if truthy_v rt (fld log ''meta'')
      then map (prop_of (fld log ''meta'')) [''time'', ''timestamp'', ''_time'', ''ts''] else []) @
     (if truthy_v rt (fld log ''payload'')
      then map (prop_of (fld log ''payload'')) [''timestamp'', ''time''] else [])"

fun first_time :: "'n runtime \<Rightarrow> 'n jsval list \<Rightarrow> int option" where
  "first_time rt [] = None"
| "first_time rt (c # cs) = (case time_of_value rt c of Some t \<Rightarrow> Some t | None \<Rightarrow> first_time rt cs)"

definition getTimestampFromLog :: "'n runtime \<Rightarrow> 'n logrow \<Rightarrow> int option" where
  "getTimestampFromLog rt log = first_time rt (candidates rt log)"

text \<open>\<open>getTimestampFromLog(a)?.getTime() || 0\<close>, the sort key of the merge.\<close>

definition getTime_or_0 :: "'n runtime \<Rightarrow> 'n logrow \<Rightarrow> int" where
  "getTime_or_0 rt a = (case getTimestampFromLog rt a of None \<Rightarrow> 0 | Some t \<Rightarrow> t)"

definition stableLogKey :: "'n runtime \<Rightarrow> 'n logrow \<Rightarrow> string" where
  "stableLogKey rt l =
     (if truthy_v rt (fld l ''id'') then to_str rt (fld l ''id'')
      else if truthy_v rt (fld l ''_id'') then to_str rt (fld l ''_id'')
      else if truthy_v rt (fld l ''uuid'') then to_str rt (fld l ''uuid'')
      else
        let ts = getTimestampFromLog rt l;
            msg = sliceText rt 240 (to_str rt (or_v rt (or_v rt (or_v rt (fld l ''message'') (fld l ''msg''))
                                                   (fld l ''m'')) (JStr [])))
        in case ts of Some t \<Rightarrow> decimal_int t @ ''::'' @ msg
           | None \<Rightarrow> sliceText rt 500 (stringify rt l))"

text \<open>\<open>Map.prototype.set\<close>: a key that is present keeps its place and gets the new value.\<close>

fun map_set :: "(string \<times> 'a) list \<Rightarrow> string \<Rightarrow> 'a \<Rightarrow> (string \<times> 'a) list" where
  "map_set [] k v = [(k, v)]"
| "map_set ((k', v') # m) k v = (if k' = k then (k, v) # m else (k', v') # map_set m k v)"

text \<open>
  The two loops that fill the map. The initial load skips a falsy key
  (\<open>if (k) map.set(k, e)\<close>); the poll sets every key.
\<close>

definition set_checked ::
  "'n runtime \<Rightarrow> (string \<times> 'n logrow) list \<Rightarrow> 'n logrow list \<Rightarrow> (string \<times> 'n logrow) list" where
  "set_checked rt m rows =
     foldl (\<lambda>m e. let k = stableLogKey rt e in if k \<noteq> [] then map_set m k e else m) m rows"

definition set_all ::
  "'n runtime \<Rightarrow> (string \<times> 'n logrow) list \<Rightarrow> 'n logrow list \<Rightarrow> (string \<times> 'n logrow) list" where
  "set_all rt m rows = foldl (\<lambda>m c. map_set m (stableLogKey rt c) c) m rows"

text \<open>\<open>Array.from(map.values()).sort((a, b) => ta - tb)\<close>; the sort is stable.\<close>

definition merge_initial :: "'n runtime \<Rightarrow> 'n logrow list \<Rightarrow> 'n logrow list \<Rightarrow> 'n logrow list" where
  "merge_initial rt existing combined =
     sort_key (getTime_or_0 rt) (map snd (set_checked rt (set_checked rt [] existing) combined))"

definition merge_poll :: "'n runtime \<Rightarrow> 'n logrow list \<Rightarrow> 'n logrow list \<Rightarrow> 'n logrow list" where
  "merge_poll rt cur newest =
     sort_key (getTime_or_0 rt) (map snd (set_all rt (set_all rt [] cur) newest))"

text \<open>\<open>writeCache\<close> keeps the last 5000 rows; one poll tick of the dashboard.\<close>

definition writeCache :: "'n logrow list \<Rightarrow> 'n logrow list" where
  "writeCache arr = drop (length arr - 5000) arr"

record 'n dashboard =
  cache :: "'n logrow list"
  shown :: "'n logrow list"

definition poll_tick :: "'n runtime \<Rightarrow> 'n logrow list \<Rightarrow> 'n dashboard \<Rightarrow> 'n dashboard" where
  "poll_tick rt newest d =
     (let merged2 = merge_poll rt (cache d) newest
      in \<lparr>cache = writeCache merged2, shown = merged2\<rparr>)"

text \<open>Each entry of the map is filed under the key of its row.\<close>

definition keyed :: "'n runtime \<Rightarrow> (string \<times> 'n logrow) list \<Rightarrow> bool" where
  "keyed rt m \<longleftrightarrow> distinct (map fst m) \<and> (\<forall>(k, r)\<in>set m. k = stableLogKey rt r)"

section \<open>A sample engine\<close>

text \<open>
  For the examples the numbers are the 32-bit signed integers, each of which is a
  number of the engine: it prints in plain decimal, it is a valid time value, and so is
  its thousandfold. Text is ASCII: case conversion maps the 26 letters, \<open>trim\<close>
  removes the space and the control characters 9 to 13, and a code unit is a
  character. Parsing dates from text is left out of the sample, which takes no string
  for a date: the examples' timestamps are numbers, or text that no engine takes for
  a date. \<open>JSON.stringify\<close> is written out.
\<close>

definition upper_char :: "char \<Rightarrow> char" where
  "upper_char c = (let n = of_char c :: nat in if 97 \<le> n \<and> n \<le> 122 then char_of (n - 32) else c)"

definition lower_char :: "char \<Rightarrow> char" where
  "lower_char c = (let n = of_char c :: nat in if 65 \<le> n \<and> n \<le> 90 then char_of (n + 32) else c)"

definition is_space :: "char \<Rightarrow> bool" where
  "is_space c = (let n = of_char c :: nat in n = 32 \<or> (9 \<le> n \<and> n \<le> 13))"

definition ascii_trim :: "string \<Rightarrow> string" where
  "ascii_trim s = rev (dropWhile is_space (rev (dropWhile is_space s)))"

definition hex_char :: "nat \<Rightarrow> char" where
  "hex_char n = (if n < 10 then char_of (48 + n) else char_of (87 + n))"

text \<open>
  A character inside a JSON string: the quote and the backslash are escaped, a control
  character is written as its short escape or, failing that, as the six-character
  escape with its hexadecimal code.
\<close>

definition json_char :: "char \<Rightarrow> string" where
  "json_char c =
     (let n = of_char c :: nat in
      if n = 8 then [CHR 0x5C, CHR ''b'']
      else if n = 9 then [CHR 0x5C, CHR ''t'']
      else if n = 10 then [CHR 0x5C, CHR ''n'']
      else if n = 12 then [CHR 0x5C, CHR ''f'']
      else if n = 13 then [CHR 0x5C, CHR ''r'']
      else if n = 34 then [CHR 0x5C, CHR 0x22]
      else if n = 92 then [CHR 0x5C, CHR 0x5C]
      else if n < 32
      then [CHR 0x5C, CHR ''u'', CHR ''0'', CHR ''0'', hex_char (n div 16), hex_char (n mod 16)]
      else [c])"

definition json_string :: "string \<Rightarrow> string" where
  "json_string s = CHR 0x22 # concat (map json_char s) @ [CHR 0x22]"

fun json_text :: "('n \<Rightarrow> string) \<Rightarrow> 'n jsval \<Rightarrow> string" where
  "json_text pr JUndef = ''null''"
| "json_text pr JNull = ''null''"
| "json_text pr (JBool b) = (if b then ''true'' else ''false'')"
| "json_text pr (JNum n) = pr n"
| "json_text pr (JStr s) = json_string s"
| "json_text pr (JArr xs) = ''['' @ join_with '','' (map (json_text pr) xs) @ '']''"
| "json_text pr (JObj kvs) =
     ''{'' @ join_with '',''
              (map (\<lambda>p. json_string (fst p) @ '':'' @ json_text pr (snd p))
                   (filter (\<lambda>p. snd p \<noteq> JUndef) kvs)) @ ''}''"

definition sample_runtime :: "32 word runtime" where
  "sample_runtime =
     \<lparr>numTruthy = (\<lambda>n. n \<noteq> 0),
      numString = (\<lambda>n. decimal_int (sint n)),
      numAbove = (\<lambda>n k. k < sint n),
      numDate = (\<lambda>n. Some (sint n)),
      numDate1000 = (\<lambda>n. Some (sint n * 1000)),
      dateParse = (\<lambda>s. None),
      stringify = (\<lambda>r. json_text (\<lambda>n. decimal_int (sint n)) (JObj r)),
      lowerCase = map lower_char,
      upperCase = map upper_char,
      trimText = ascii_trim,
      sliceText = take\<rparr>"


section \<open>The analysis page: how timers and network calls evolve\<close>


lemma issue_simps [simp]:
  "loops (issue r s) = loops s" "sent (issue r s) = sent s @ [r]"
  "pollRef (issue r s) = pollRef s" "settled (issue r s) = settled s"
  "mountedRef (issue r s) = mountedRef s" "error (issue r s) = error s"
  "pendingJob (issue r s) = pendingJob s"
  by (simp_all add: issue_def)

lemma clearInterval_simps [simp]:
  "sent (clearInterval h s) = sent s" "pollRef (clearInterval h s) = pollRef s"
  "settled (clearInterval h s) = settled s" "length (loops (clearInterval h s)) = length (loops s)"
  "mountedRef (clearInterval h s) = mountedRef s" "error (clearInterval h s) = error s"
  "pendingJob (clearInterval h s) = pendingJob s"
  by (simp_all add: clearInterval_def)

lemma timer_on_clearInterval [simp]:
  "i < length (loops s) \<Longrightarrow>
   timer_on (loops (clearInterval h s) ! i) = (i \<noteq> h \<and> timer_on (loops s ! i))"
  by (auto simp: clearInterval_def nth_list_update)

lemma timer_on_attempts_update [simp]:
  "i < length xs \<Longrightarrow> timer_on (xs[l := (xs ! l)\<lparr>attempts := a\<rparr>] ! i) = timer_on (xs ! i)"
  by (cases "i = l") simp_all

lemma stop_poll_simps [simp]:
  "sent (stop_poll s) = sent s" "pollRef (stop_poll s) = None"
  "settled (stop_poll s) = settled s" "length (loops (stop_poll s)) = length (loops s)"
  "mountedRef (stop_poll s) = mountedRef s" "error (stop_poll s) = error s"
  "pendingJob (stop_poll s) = pendingJob s"
  by (simp_all add: stop_poll_def split: option.splits)

lemma timer_on_stop_poll [simp]:
  "i < length (loops s) \<Longrightarrow>
   timer_on (loops (stop_poll s) ! i) = (pollRef s \<noteq> Some i \<and> timer_on (loops s ! i))"
  by (auto simp: stop_poll_def split: option.splits)

lemma setLoadingIfMounted_simps [simp]:
  "loops (setLoadingIfMounted v s) = loops s" "sent (setLoadingIfMounted v s) = sent s"
  "pollRef (setLoadingIfMounted v s) = pollRef s" "settled (setLoadingIfMounted v s) = settled s"
  "mountedRef (setLoadingIfMounted v s) = mountedRef s" "error (setLoadingIfMounted v s) = error s"
  "pendingJob (setLoadingIfMounted v s) = pendingJob s"
  by (simp_all add: setLoadingIfMounted_def)

lemma note_status_simps [simp]:
  "loops (note_status j st b s) = loops s" "sent (note_status j st b s) = sent s"
  "pollRef (note_status j st b s) = pollRef s" "settled (note_status j st b s) = settled s"
  "mountedRef (note_status j st b s) = mountedRef s" "error (note_status j st b s) = error s"
  by (simp_all add: note_status_def Let_def)

lemma mark_done_simps [simp]:
  "loops (mark_done j s) = loops s" "sent (mark_done j s) = sent s"
  "pollRef (mark_done j s) = pollRef s" "settled (mark_done j s) = settled s"
  "mountedRef (mark_done j s) = mountedRef s" "error (mark_done j s) = error s"
  by (simp_all add: mark_done_def)

lemma evolves_refl: "evolves s s"
  by (simp add: evolves_def)

lemma evolves_trans: "evolves s s' \<Longrightarrow> evolves s' s'' \<Longrightarrow> evolves s s''"
  unfolding evolves_def
  apply (elim conjE exE)
  apply (intro conjI)
    apply simp
   apply simp
  subgoal for new new'
    apply (rule exI [of _ "new @ new'"])
    apply auto
    done
  done

lemma evolves_same:
  "loops s' = loops s \<Longrightarrow> sent s' = sent s \<Longrightarrow> evolves s s'"
  by (simp add: evolves_def)

lemma evolves_clearInterval: "evolves s (clearInterval h s)"
  by (simp add: evolves_def)

lemma evolves_stop_poll: "evolves s (stop_poll s)"
  by (simp add: evolves_def)

lemma evolves_doPoll_begin:
  "l < length (loops s) \<Longrightarrow> timer_on (loops s ! l) \<Longrightarrow> evolves s (doPoll_begin l s)"
  by (auto simp: evolves_def doPoll_begin_def Let_def nth_list_update)

lemma evolves_doPoll_status: "evolves s (doPoll_status l f s)"
  by (auto simp: evolves_def doPoll_status_def Let_def split: fetched.splits option.splits)

lemma evolves_doPoll_result: "evolves s (doPoll_result l f s)"
  by (auto simp: evolves_def doPoll_result_def Let_def split: fetched.splits option.splits bool.splits)

lemma evolves_pollJobStatus: "evolves s (pollJobStatus j n s)"
  by (auto simp: evolves_def pollJobStatus_def doPoll_begin_def Let_def nth_list_update nth_append
      split: option.splits)


lemma evolves_runAnalysisForFile_begin: "evolves s (runAnalysisForFile_begin fid s)"
  by (auto simp: evolves_def runAnalysisForFile_begin_def)

lemma evolves_runAnalysisForFile_settle: "evolves s (runAnalysisForFile_settle f s)"
proof -
  have "evolves s (case f of
          Threw name msg \<Rightarrow>
            if name = ''AbortError'' then s\<lparr>error := Some abort_message\<rparr>
            else s\<lparr>error := Some (err_text name msg)\<rparr>
        | Resp r \<Rightarrow>
            if r_status r = 202
            then
              let jid = (case parsed r of None \<Rightarrow> None | Some b \<Rightarrow> js_or (b_job_id b) (b_job b));
                  s1 = s\<lparr>pendingJob := Some \<lparr>jobId = (if truthy jid then jid else None),
                           status = ''queued'',
                           message = Some (or_str (case parsed r of None \<Rightarrow> None
                                                   | Some b \<Rightarrow> b_message b)
                                                  ''Queued for analysis'')\<rparr>,
                         loading := False\<rparr>
              in if truthy jid then pollJobStatus (the jid) 120 s1
                 else s1\<lparr>error := Some ''Analysis queued but server returned no job id''\<rparr>
            else if ok r
            then (if mountedRef s
                  then s\<lparr>analysis := (case parsed r of
                            Some b \<Rightarrow> Some b
                          | None \<Rightarrow> if r_text r \<noteq> [] then Some (summary_only (r_text r))
                                    else None)\<rparr>
                  else s)
            else s\<lparr>error := Some (server_message r)\<rparr>)" (is "evolves s ?t")
  proof (cases f)
    case (Threw name msg)
    then show ?thesis by (simp add: evolves_same)
  next
    case (Resp r)
    show ?thesis
    proof (cases "r_status r = 202 \<and> truthy (case parsed r of None \<Rightarrow> None | Some b \<Rightarrow> js_or (b_job_id b) (b_job b))")
      case True
      have "evolves s (s\<lparr>pendingJob := x, loading := False\<rparr>)" for x
        by (simp add: evolves_same)
      then show ?thesis using Resp True
        by (auto simp: Let_def intro: evolves_trans [OF _ evolves_pollJobStatus])
    next
      case False
      then show ?thesis using Resp by (auto simp: Let_def evolves_same)
    qed
  qed
  then show ?thesis
    unfolding runAnalysisForFile_settle_def
    by (rule evolves_trans) (simp add: evolves_same)
qed

lemma evolves_step: "evolves s (step s e)"
proof (cases e)
  case (LastFileSettles f)
  then show ?thesis
    by (auto simp: lastFile_settle_def Let_def evolves_same split: fetched.splits)
next
  case ClickStart
  then show ?thesis
    by (auto simp: startAnalysis_def Let_def evolves_same
        intro: evolves_trans [OF _ evolves_runAnalysisForFile_begin])
next
  case ClickViewLast
  then show ?thesis
    by (simp add: onClickViewLast_def evolves_same evolves_runAnalysisForFile_begin)
next
  case ClickRerun
  then show ?thesis by (simp add: evolves_runAnalysisForFile_begin)
next
  case ClickPollStatus
  then show ?thesis
    by (simp add: clickPollStatus_def evolves_refl evolves_pollJobStatus split: option.splits)
next
  case ClickCancel
  then show ?thesis
    by (auto simp: cancelPoll_def evolves_def split: option.splits)
next
  case Unmount
  then show ?thesis
    by (auto simp: unmount_def evolves_def split: option.splits)
next
  case (TimerFires h)
  then show ?thesis by (simp add: evolves_refl evolves_doPoll_begin)
next
  case (Settles i f)
  have "evolves s (s\<lparr>settled := i # settled s\<rparr>)" by (simp add: evolves_same)
  then show ?thesis using Settles
    by (auto simp: on_settle_def evolves_refl split: request.splits
        intro: evolves_trans [OF _ evolves_runAnalysisForFile_settle]
               evolves_trans [OF _ evolves_doPoll_status]
               evolves_trans [OF _ evolves_doPoll_result])
qed

lemma run_Nil [simp]: "run s [] = s"
  by (simp add: run_def)

lemma run_Cons [simp]: "run s (e # es) = run (step s e) es"
  by (simp add: run_def)

lemma run_append: "run s (es @ es') = run (run s es) es'"
  by (simp add: run_def)

lemma evolves_run: "evolves s (run s es)"
proof (induction es arbitrary: s)
  case Nil
  show ?case by (simp add: evolves_refl)
next
  case (Cons e es)
  show ?case using evolves_trans [OF evolves_step Cons.IH] by simp
qed

lemma one_timer_same:
  "loops s' = loops s \<Longrightarrow> pollRef s' = pollRef s \<Longrightarrow> one_timer s \<Longrightarrow> one_timer s'"
  by (simp add: one_timer_def)

lemma one_timer_stop_poll: "one_timer s \<Longrightarrow> one_timer (stop_poll s)"
  by (auto simp: one_timer_def)

lemma one_timer_doPoll_begin: "one_timer s \<Longrightarrow> one_timer (doPoll_begin l s)"
  by (auto simp: one_timer_def doPoll_begin_def Let_def)

lemma one_timer_doPoll_status: "one_timer s \<Longrightarrow> one_timer (doPoll_status l f s)"
  by (auto simp: one_timer_def doPoll_status_def Let_def split: fetched.splits option.splits)

lemma one_timer_doPoll_result: "one_timer s \<Longrightarrow> one_timer (doPoll_result l f s)"
  by (auto simp: one_timer_def doPoll_result_def Let_def split: fetched.splits option.splits bool.splits)

lemma one_timer_pollJobStatus: "one_timer s \<Longrightarrow> one_timer (pollJobStatus j n s)"
  by (auto simp: one_timer_def pollJobStatus_def doPoll_begin_def Let_def nth_list_update nth_append
      split: option.splits)

lemma one_timer_runAnalysisForFile_begin:
  "one_timer s \<Longrightarrow> one_timer (runAnalysisForFile_begin fid s)"
  by (auto simp: one_timer_def runAnalysisForFile_begin_def)

lemma one_timer_setLoadingIfMounted:
  "one_timer s \<Longrightarrow> one_timer (setLoadingIfMounted v s)"
  by (simp add: one_timer_def)

lemma one_timer_runAnalysisForFile_settle:
  assumes "one_timer s"
  shows "one_timer (runAnalysisForFile_settle f s)"
proof -
  have upd: "one_timer (s\<lparr>pendingJob := x, loading := y\<rparr>)" for x y
    using assms by (simp add: one_timer_def)
  show ?thesis
    unfolding runAnalysisForFile_settle_def
    apply (rule one_timer_setLoadingIfMounted)
    using assms upd
    apply (auto simp: Let_def split: fetched.splits intro: one_timer_pollJobStatus one_timer_same)
    done
qed

lemma one_timer_step: "one_timer s \<Longrightarrow> one_timer (step s e)"
proof (cases e)
  case (LastFileSettles f)
  assume "one_timer s"
  then show ?thesis using LastFileSettles
    by (auto simp: lastFile_settle_def Let_def one_timer_def split: fetched.splits)
next
  case ClickStart
  assume a: "one_timer s"
  then have "one_timer (s\<lparr>error := None, loading := True\<rparr>)" by (simp add: one_timer_def)
  then show ?thesis using ClickStart a
    by (auto simp: startAnalysis_def Let_def intro: one_timer_runAnalysisForFile_begin one_timer_same)
next
  case ClickViewLast
  assume "one_timer s"
  then show ?thesis using ClickViewLast
    by (auto simp: onClickViewLast_def intro: one_timer_runAnalysisForFile_begin one_timer_same)
next
  case ClickRerun
  assume "one_timer s"
  then show ?thesis using ClickRerun by (simp add: one_timer_runAnalysisForFile_begin)
next
  case ClickPollStatus
  assume "one_timer s"
  then show ?thesis using ClickPollStatus
    by (simp add: clickPollStatus_def one_timer_pollJobStatus split: option.splits)
next
  case ClickCancel
  assume "one_timer s"
  then show ?thesis using ClickCancel
    by (auto simp: cancelPoll_def one_timer_def split: option.splits)
next
  case Unmount
  assume "one_timer s"
  then show ?thesis using Unmount
    by (auto simp: unmount_def one_timer_def split: option.splits)
next
  case (TimerFires h)
  assume "one_timer s"
  then show ?thesis using TimerFires by (simp add: one_timer_doPoll_begin)
next
  case (Settles i f)
  assume a: "one_timer s"
  then have "one_timer (s\<lparr>settled := i # settled s\<rparr>)" by (simp add: one_timer_def)
  then show ?thesis using Settles a
    by (auto simp: on_settle_def split: request.splits
        intro: one_timer_runAnalysisForFile_settle one_timer_doPoll_status one_timer_doPoll_result)
qed

lemma one_timer_run: "one_timer s \<Longrightarrow> one_timer (run s es)"
  by (induction es arbitrary: s) (simp_all add: one_timer_step)

lemma one_timer_init: "one_timer init"
  by (simp add: one_timer_def init_def)



lemma req_ok_same_jobs: "same_jobs ls ls' \<Longrightarrow> req_ok ls q \<Longrightarrow> req_ok ls' q"
  by (auto simp: same_jobs_def req_ok_def split: request.splits)

lemma same_jobs_refl [simp]: "same_jobs ls ls"
  by (simp add: same_jobs_def)

lemma l_jobId_clearInterval [simp]:
  "i < length (loops s) \<Longrightarrow> l_jobId (loops (clearInterval h s) ! i) = l_jobId (loops s ! i)"
  by (auto simp: clearInterval_def nth_list_update)

lemma l_jobId_stop_poll [simp]:
  "i < length (loops s) \<Longrightarrow> l_jobId (loops (stop_poll s) ! i) = l_jobId (loops s ! i)"
  by (auto simp: stop_poll_def split: option.splits)

lemma sent_ok_I:
  "sent_ok s \<Longrightarrow> same_jobs (loops s) (loops s') \<Longrightarrow> sent s' = sent s @ new \<Longrightarrow>
   \<forall>q\<in>set new. req_ok (loops s') q \<Longrightarrow> set (settled s') \<subseteq> set (settled s) \<union> {..<length (sent s)} \<Longrightarrow>
   sent_ok s'"
  unfolding sent_ok_def
  by (auto intro: req_ok_same_jobs) (metis (no_types, lifting) UnE lessThan_iff subsetD trans_less_add1)

lemma sent_ok_same:
  "sent_ok s \<Longrightarrow> loops s' = loops s \<Longrightarrow> sent s' = sent s \<Longrightarrow> settled s' = settled s \<Longrightarrow> sent_ok s'"
  by (simp add: sent_ok_def)

lemma sent_ok_stop_poll: "sent_ok s \<Longrightarrow> sent_ok (stop_poll s)"
  by (rule sent_ok_I [where s = s and new = "[]"]) (auto simp: same_jobs_def)

lemma sent_ok_clearInterval: "sent_ok s \<Longrightarrow> sent_ok (clearInterval h s)"
  by (rule sent_ok_I [where s = s and new = "[]"]) (auto simp: same_jobs_def)

lemma sent_ok_doPoll_begin:
  "sent_ok s \<Longrightarrow> l < length (loops s) \<Longrightarrow> sent_ok (doPoll_begin l s)"
  by (rule sent_ok_I [where s = s and new = "[StatusCheck l (l_jobId (loops s ! l))]"])
     (auto simp: doPoll_begin_def Let_def same_jobs_def req_ok_def nth_list_update)

lemma sent_ok_doPoll_status:
  "sent_ok s \<Longrightarrow> l < length (loops s) \<Longrightarrow> sent_ok (doPoll_status l f s)"
  by (rule sent_ok_I [where s = s and new = "if (\<exists>r. f = Resp r \<and> ok r \<and> is_done (status_of r))
        then [ResultFetch l (l_jobId (loops s ! l))] else []"])
     (auto simp: doPoll_status_def Let_def req_ok_def same_jobs_def split: fetched.splits option.splits)

lemma sent_ok_doPoll_result:
  "sent_ok s \<Longrightarrow> sent_ok (doPoll_result l f s)"
  by (rule sent_ok_I [where s = s and new = "[]"])
     (auto simp: doPoll_result_def Let_def same_jobs_def split: fetched.splits option.splits bool.splits)

lemma sent_ok_pollJobStatus: "sent_ok s \<Longrightarrow> sent_ok (pollJobStatus j n s)"
  by (rule sent_ok_I [where s = s and new = "if j = [] then [] else [StatusCheck (length (loops s)) j]"])
     (auto simp: pollJobStatus_def doPoll_begin_def Let_def same_jobs_def req_ok_def
        nth_list_update nth_append clearInterval_def split: option.splits)

lemma sent_ok_runAnalysisForFile_begin:
  "sent_ok s \<Longrightarrow> sent_ok (runAnalysisForFile_begin fid s)"
  by (rule sent_ok_I [where s = s and new = "if truthy fid then [Analyze (the fid)] else []"])
     (auto simp: runAnalysisForFile_begin_def req_ok_def)

lemma sent_ok_setLoadingIfMounted: "sent_ok s \<Longrightarrow> sent_ok (setLoadingIfMounted v s)"
  by (simp add: sent_ok_def)

lemma sent_ok_runAnalysisForFile_settle:
  assumes "sent_ok s"
  shows "sent_ok (runAnalysisForFile_settle f s)"
proof -
  have upd: "sent_ok (s\<lparr>pendingJob := x, loading := y\<rparr>)" for x y
    using assms by (simp add: sent_ok_def)
  show ?thesis
    unfolding runAnalysisForFile_settle_def
    apply (rule sent_ok_setLoadingIfMounted)
    using assms upd
    apply (auto simp: Let_def split: fetched.splits intro: sent_ok_pollJobStatus sent_ok_same)
    done
qed

lemma sent_ok_settled:
  "sent_ok s \<Longrightarrow> i < length (sent s) \<Longrightarrow> sent_ok (s\<lparr>settled := i # settled s\<rparr>)"
  by (simp add: sent_ok_def)

lemma sent_ok_nth:
  "sent_ok s \<Longrightarrow> i < length (sent s) \<Longrightarrow> req_ok (loops s) (sent s ! i)"
  by (simp add: sent_ok_def)

lemma sent_ok_step: "sent_ok s \<Longrightarrow> sent_ok (step s e)"
proof (cases e)
  case (LastFileSettles f)
  assume "sent_ok s"
  then show ?thesis using LastFileSettles
    by (auto simp: lastFile_settle_def Let_def sent_ok_def split: fetched.splits)
next
  case ClickStart
  assume a: "sent_ok s"
  then have "sent_ok (s\<lparr>error := None, loading := True\<rparr>)" by (simp add: sent_ok_def)
  then show ?thesis using ClickStart a
    by (auto simp: startAnalysis_def Let_def intro: sent_ok_runAnalysisForFile_begin sent_ok_same)
next
  case ClickViewLast
  assume "sent_ok s"
  then show ?thesis using ClickViewLast
    by (auto simp: onClickViewLast_def intro: sent_ok_runAnalysisForFile_begin sent_ok_same)
next
  case ClickRerun
  assume "sent_ok s"
  then show ?thesis using ClickRerun by (simp add: sent_ok_runAnalysisForFile_begin)
next
  case ClickPollStatus
  assume "sent_ok s"
  then show ?thesis using ClickPollStatus
    by (simp add: clickPollStatus_def sent_ok_pollJobStatus split: option.splits)
next
  case ClickCancel
  assume a: "sent_ok s"
  show ?thesis
  proof (cases "pollRef s")
    case None
    then show ?thesis using a ClickCancel by (simp add: cancelPoll_def)
  next
    case (Some h)
    have "sent_ok (clearInterval h s)" using a by (rule sent_ok_clearInterval)
    then show ?thesis using Some ClickCancel
      by (simp add: cancelPoll_def sent_ok_def)
  qed
next
  case Unmount
  assume a: "sent_ok s"
  then have "sent_ok (s\<lparr>mountedRef := False\<rparr>)" by (simp add: sent_ok_def)
  then show ?thesis using Unmount
    by (auto simp: unmount_def intro: sent_ok_clearInterval split: option.splits)
next
  case (TimerFires h)
  assume "sent_ok s"
  then show ?thesis using TimerFires by (simp add: sent_ok_doPoll_begin)
next
  case (Settles i f)
  assume a: "sent_ok s"
  show ?thesis
  proof (cases "i < length (sent s) \<and> i \<notin> set (settled s)")
    case False
    then show ?thesis using a Settles by (auto simp: on_settle_def)
  next
    case True
    then have b: "sent_ok (s\<lparr>settled := i # settled s\<rparr>)" using a by (simp add: sent_ok_settled)
    have c: "req_ok (loops s) (sent s ! i)" using a True by (simp add: sent_ok_nth)
    show ?thesis using Settles True b c
      by (auto simp: on_settle_def req_ok_def split: request.splits
          intro: sent_ok_runAnalysisForFile_settle sent_ok_doPoll_status sent_ok_doPoll_result)
  qed
qed

lemma sent_ok_run: "sent_ok s \<Longrightarrow> sent_ok (run s es)"
  by (induction es arbitrary: s) (simp_all add: sent_ok_step)

lemma sent_ok_init: "sent_ok init"
  by (simp add: sent_ok_def init_def)

lemma reachable_one_timer: "one_timer (run init evs)"
  by (rule one_timer_run [OF one_timer_init])

lemma reachable_sent_ok: "sent_ok (run init evs)"
  by (rule sent_ok_run [OF sent_ok_init])

lemma evolves_later_checks:
  assumes "evolves s t" "\<forall>i<length (loops s). \<not> timer_on (loops s ! i)"
  shows "\<forall>l j. StatusCheck l j \<in> set (drop (length (sent s)) (sent t)) \<longrightarrow> length (loops s) \<le> l"
proof (intro allI impI)
  fix l j
  assume a: "StatusCheck l j \<in> set (drop (length (sent s)) (sent t))"
  from assms(1) obtain new where n: "sent t = sent s @ new"
    and c: "\<forall>l j. StatusCheck l j \<in> set new \<longrightarrow> l < length (loops s) \<longrightarrow> timer_on (loops s ! l)"
    unfolding evolves_def by blast
  from a n have "StatusCheck l j \<in> set new" by simp
  with c assms(2) show "length (loops s) \<le> l" by (meson not_less)
qed



lemma no_timer_armed_stop_poll: "one_timer s \<Longrightarrow> no_timer_armed (stop_poll s)"
  by (auto simp: no_timer_armed_def one_timer_def)

lemma no_timer_armed_same: "loops s' = loops s \<Longrightarrow> no_timer_armed s \<Longrightarrow> no_timer_armed s'"
  by (simp add: no_timer_armed_def)

lemma later_checks:
  "no_timer_armed s \<Longrightarrow>
   \<forall>l j. StatusCheck l j \<in> set (drop (length (sent s)) (sent (run s es))) \<longrightarrow> length (loops s) \<le> l"
  using evolves_later_checks [OF evolves_run] by (simp add: no_timer_armed_def)

lemma pollJobStatus_effect:
  assumes "jid \<noteq> []" "one_timer s"
  shows "pollRef (pollJobStatus jid n s) = Some (length (loops s))"
    and "length (loops (pollJobStatus jid n s)) = Suc (length (loops s))"
    and "sent (pollJobStatus jid n s) = sent s @ [StatusCheck (length (loops s)) jid]"
    and "loops (pollJobStatus jid n s) ! length (loops s) =
           \<lparr>l_jobId = jid, attempts = 1, maxAttempts = n, timer_on = True\<rparr>"
    and "\<forall>i<length (loops s). \<not> timer_on (loops (pollJobStatus jid n s) ! i)"
    and "settled (pollJobStatus jid n s) = settled s"
    and "mountedRef (pollJobStatus jid n s) = mountedRef s"
    and "error (pollJobStatus jid n s) = error s"
    and "pendingJob (pollJobStatus jid n s) = pendingJob s"
  using assms
  by (auto simp: pollJobStatus_def doPoll_begin_def Let_def nth_append nth_list_update one_timer_def
      clearInterval_def split: option.splits)

text \<open>
  Within one instance of the page at most one poll loop is armed. Let \<open>s\<close> be any
  state the instance can reach, for instance one in which a loop for job A is polling.
  After \<open>pollJobStatus\<close> for job B no timer of an older loop is armed, the only new
  network call is B's first status check, and whatever happens later, every status
  check issued from B's start on belongs to B's loop or to a loop started after it,
  never to A's, and at no time are two timers of the instance armed.
\<close>

lemma one_armed_timer_per_instance:
  assumes "jobB \<noteq> []"
  shows "let s = run init evs; s' = pollJobStatus jobB n s; t = run s' evs' in
           (\<forall>i<length (loops s). \<not> timer_on (loops s' ! i)) \<and>
           sent s' = sent s @ [StatusCheck (length (loops s)) jobB] \<and>
           pollRef s' = Some (length (loops s)) \<and>
           (\<forall>l j. StatusCheck l j \<in> set (drop (length (sent s)) (sent t)) \<longrightarrow> length (loops s) \<le> l) \<and>
           (\<forall>i j. i < length (loops t) \<and> j < length (loops t) \<and>
                  timer_on (loops t ! i) \<and> timer_on (loops t ! j) \<longrightarrow> i = j)"
proof -
  define s where "s = run init evs"
  define s' where "s' = pollJobStatus jobB n s"
  have ot: "one_timer s" unfolding s_def by (rule reachable_one_timer)
  note eff = pollJobStatus_effect [OF assms ot, of n, folded s'_def]
  have ev: "evolves s' (run s' evs')" by (rule evolves_run)
  then obtain new where new: "sent (run s' evs') = sent s' @ new"
    and chk: "\<forall>l j. StatusCheck l j \<in> set new \<longrightarrow> l < length (loops s') \<longrightarrow> timer_on (loops s' ! l)"
    unfolding evolves_def by blast
  have "length (loops s) \<le> l" if "StatusCheck l j \<in> set (drop (length (sent s)) (sent (run s' evs')))" for l j
  proof -
    from that new eff(3) have "StatusCheck l j = StatusCheck (length (loops s)) jobB \<or> StatusCheck l j \<in> set new"
      by auto
    then show ?thesis
    proof
      assume "StatusCheck l j = StatusCheck (length (loops s)) jobB"
      then show ?thesis by simp
    next
      assume "StatusCheck l j \<in> set new"
      with chk have "l < length (loops s') \<longrightarrow> timer_on (loops s' ! l)" by blast
      with eff(5) eff(2) show ?thesis by (cases "l < length (loops s)") auto
    qed
  qed
  moreover have "one_timer (run s' evs')"
    unfolding s'_def by (intro one_timer_run one_timer_pollJobStatus ot)
  then have "\<forall>i j. i < length (loops (run s' evs')) \<and> j < length (loops (run s' evs')) \<and>
      timer_on (loops (run s' evs') ! i) \<and> timer_on (loops (run s' evs') ! j) \<longrightarrow> i = j"
    unfolding one_timer_def by (metis option.inject)
  ultimately show ?thesis
    using eff unfolding Let_def s_def [symmetric] s'_def [symmetric] by blast
qed

lemma doPoll_status_failure:
  assumes "transport_failure f" "one_timer s"
  shows "no_timer_armed (doPoll_status l f s)" "pollRef (doPoll_status l f s) = None"
    "error (doPoll_status l f s) = Some (poll_error_text f)"
    "sent (doPoll_status l f s) = sent s" "length (loops (doPoll_status l f s)) = length (loops s)"
  using assms
  by (auto simp: transport_failure_def doPoll_status_def poll_error_text_def no_timer_armed_def
      one_timer_def Let_def split: fetched.splits option.splits)

text \<open>
  Claim C10. When a pending status check settles with a rejection or with a response
  outside 2xx, no timer is left armed, \<open>pollRef\<close> is cleared, and the error is put into
  the \<open>error\<close> message, whatever status the job was last seen in. From then on
  every status check that is issued belongs to a loop created later by a new call of
  \<open>pollJobStatus\<close>: the stopped loops never check again.
\<close>

theorem poll_failure_stops_loop:
  assumes "i < length (sent (run init evs))" "i \<notin> set (settled (run init evs))"
    and "sent (run init evs) ! i = StatusCheck l j"
    and "transport_failure f"
  shows "let s = run init evs; s' = step s (Settles i f); t = run s' evs' in
           (\<forall>k<length (loops s'). \<not> timer_on (loops s' ! k)) \<and>
           pollRef s' = None \<and>
           error s' = Some (poll_error_text f) \<and>
           sent s' = sent s \<and> length (loops s') = length (loops s) \<and>
           (\<forall>l' j'. StatusCheck l' j' \<in> set (drop (length (sent s)) (sent t)) \<longrightarrow>
                length (loops s) \<le> l')"
proof -
  define s where "s = run init evs"
  define s0 where "s0 = s\<lparr>settled := i # settled s\<rparr>"
  have ot: "one_timer s0" using reachable_one_timer [of evs]
    by (simp add: s0_def s_def one_timer_def)
  have st: "step s (Settles i f) = doPoll_status l f s0"
    using assms(1-3) by (simp add: on_settle_def s_def s0_def)
  note f = doPoll_status_failure [OF assms(4) ot, of l, folded st]
  have "sent s0 = sent s" "loops s0 = loops s" by (simp_all add: s0_def)
  with f later_checks [OF f(1), of evs']
  show ?thesis unfolding Let_def s_def [symmetric] by (simp add: no_timer_armed_def)
qed



lemmas model_defs = init_def uploaded_def queued_ack_def status_reply_def polling_j1_def
  json_response_def no_body_def lastFile_settle_def startAnalysis_def runAnalysisForFile_begin_def
  runAnalysisForFile_settle_def pollJobStatus_def doPoll_begin_def doPoll_status_def
  doPoll_result_def on_settle_def issue_def clearInterval_def stop_poll_def
  setLoadingIfMounted_def note_status_def mark_done_def truthy_def js_or_def or_str_def ok_def
  parsed_def status_of_def is_done_def is_failed_def guard_busy_def Let_def
  cancelPoll_def unmount_def clickPollStatus_def onClickViewLast_def summary_only_def

lemma polling_j1_state:
  "run init polling_j1 =
     \<lparr>loading = False, analysis = None, error = None, lastFileId = Some ''f1'',
      pendingJob = Some \<lparr>jobId = Some ''j1'', status = ''queued'', message = Some ''Queued for analysis''\<rparr>,
      mountedRef = True, pollRef = Some 0,
      loops = [\<lparr>l_jobId = ''j1'', attempts = 1, maxAttempts = 120, timer_on = True\<rparr>],
      sent = [Analyze ''f1'', StatusCheck 0 ''j1''], settled = [0]\<rparr>"
  by (simp add: model_defs)

text \<open>
  Claim C5, evaluated on the code. The answer to the analysis request reaches an
  instance that has been unmounted: \<open>runAnalysisForFile\<close> calls \<open>pollJobStatus\<close>
  without looking at \<open>mountedRef\<close>, so a timer is armed that no cleanup will clear.
  The instance of the next visit has its own \<open>pollRef\<close>, and its \<open>pollJobStatus\<close>
  for job \<open>j2\<close> clears nothing. Both loops are armed in the one session, and the
  loop of \<open>j1\<close> issues a status check after the poll of \<open>j2\<close> has started.
\<close>

theorem poll_loop_outlives_its_page:
  "length (session_run [] two_visits) = 2 \<and>
   mountedRef (session_run [] two_visits ! 0) = False \<and>
   loops (session_run [] two_visits ! 0) =
     [\<lparr>l_jobId = ''j1'', attempts = 2, maxAttempts = 120, timer_on = True\<rparr>] \<and>
   sent (session_run [] two_visits ! 0) =
     [Analyze ''f1'', StatusCheck 0 ''j1'', StatusCheck 0 ''j1''] \<and>
   mountedRef (session_run [] two_visits ! 1) = True \<and>
   loops (session_run [] two_visits ! 1) =
     [\<lparr>l_jobId = ''j2'', attempts = 2, maxAttempts = 120, timer_on = True\<rparr>] \<and>
   sent (session_run [] two_visits ! 1) =
     [Analyze ''f1'', StatusCheck 0 ''j2'', StatusCheck 0 ''j2'']"
  by (simp add: session_run_def two_visits_def queued_ack2_def model_defs)

text \<open>
  Claim C4, evaluated on the code. Job \<open>j1\<close> is being polled, its status check
  returns \<open>done\<close> and the result fetch is issued; the interval timer is cleared only
  in the \<open>finally\<close> block behind the awaited result fetch, so a tick that falls
  before the result arrives issues one more status check.
\<close>

theorem tick_during_result_fetch:
  "sent (run init (polling_j1 @ [Settles 1 (Resp (status_reply ''done'')), TimerFires 0])) =
     [Analyze ''f1'', StatusCheck 0 ''j1'', ResultFetch 0 ''j1'', StatusCheck 0 ''j1'']"
  by (simp add: run_append polling_j1_state) (simp add: model_defs)







lemma doPoll_result_stops:
  assumes "one_timer s"
  shows "no_timer_armed (doPoll_result l f s)" "pollRef (doPoll_result l f s) = None"
    "sent (doPoll_result l f s) = sent s"
  using assms
  by (auto simp: doPoll_result_def no_timer_armed_def one_timer_def Let_def
      split: fetched.splits option.splits bool.splits)

lemma doPoll_status_done:
  assumes "ok r" "is_done (status_of r)"
  shows "sent (doPoll_status l (Resp r) s) = sent s @ [ResultFetch l (l_jobId (loops s ! l))]"
    "loops (doPoll_status l (Resp r) s) = loops s" "pollRef (doPoll_status l (Resp r) s) = pollRef s"
  using assms by (simp_all add: doPoll_status_def Let_def)

lemma doPoll_status_failed:
  assumes "ok r" "is_failed (status_of r)" "\<not> is_done (status_of r)" "one_timer s"
  shows "sent (doPoll_status l (Resp r) s) = sent s" "pollRef (doPoll_status l (Resp r) s) = None"
    "no_timer_armed (doPoll_status l (Resp r) s)"
  using assms by (auto simp: doPoll_status_def Let_def no_timer_armed_def one_timer_def)

lemma doPoll_status_other:
  assumes "ok r" "\<not> is_failed (status_of r)" "\<not> is_done (status_of r)"
  shows "sent (doPoll_status l (Resp r) s) = sent s"
    "attempts (loops s ! l) < maxAttempts (loops s ! l) \<Longrightarrow>
       loops (doPoll_status l (Resp r) s) = loops s \<and>
       pollRef (doPoll_status l (Resp r) s) = pollRef s \<and>
       error (doPoll_status l (Resp r) s) = error s"
    "\<not> attempts (loops s ! l) < maxAttempts (loops s ! l) \<Longrightarrow> one_timer s \<Longrightarrow>
       no_timer_armed (doPoll_status l (Resp r) s) \<and>
       pollRef (doPoll_status l (Resp r) s) = None \<and>
       error (doPoll_status l (Resp r) s) = Some timeout_message"
  using assms by (auto simp: doPoll_status_def Let_def no_timer_armed_def one_timer_def)

lemma is_done_iff: "is_done st \<longleftrightarrow> st \<in> {''done'', ''succeeded'', ''complete''}"
  by (simp add: is_done_def)

lemma is_failed_iff: "is_failed st \<longleftrightarrow> st \<in> {''failed'', ''error''}"
  by (simp add: is_failed_def)

lemma done_not_failed: "is_failed st \<Longrightarrow> \<not> is_done st"
  by (auto simp: is_done_def is_failed_def)

lemma evolves_sent_nth:
  "evolves s t \<Longrightarrow> k < length (sent s) \<Longrightarrow> sent t ! k = sent s ! k \<and> k < length (sent t)"
  unfolding evolves_def by (auto simp: nth_append)

text \<open>
  Claim C1, amended. A pending status check of loop \<open>l\<close> for job \<open>j\<close> settles with
  a 2xx response whose status string is \<open>st\<close>. If \<open>st\<close> is \<open>done\<close>, \<open>succeeded\<close> or
  \<open>complete\<close>, the result of \<open>j\<close> is fetched, and when that fetch settles, however
  it ends, polling has stopped: no timer is armed and \<open>pollRef\<close> is empty. If \<open>st\<close>
  is \<open>failed\<close> or \<open>error\<close>, polling is stopped at once and no result is fetched.
  Any other string is non-terminal: nothing is fetched and, while the attempt budget
  lasts, timers, \<open>pollRef\<close> and the error message stay as they are, so polling goes
  on; with the budget used up the loop gives up with the timeout message.
\<close>

theorem status_classification:
  assumes "i < length (sent (run init evs))" "i \<notin> set (settled (run init evs))"
    and "sent (run init evs) ! i = StatusCheck l j" and "ok r"
  shows "let s = run init evs; st = status_of r; s' = step s (Settles i (Resp r)) in
     (st \<in> {''done'', ''succeeded'', ''complete''} \<longrightarrow>
        sent s' = sent s @ [ResultFetch l j] \<and>
        (\<forall>evs' f. let t = run s' evs'; t' = step t (Settles (length (sent s)) f) in
           length (sent s) \<notin> set (settled t) \<longrightarrow>
           pollRef t' = None \<and> no_timer_armed t' \<and> sent t' = sent t)) \<and>
     (st \<in> {''failed'', ''error''} \<longrightarrow>
        sent s' = sent s \<and> pollRef s' = None \<and> no_timer_armed s') \<and>
     (st \<notin> {''done'', ''succeeded'', ''complete'', ''failed'', ''error''} \<longrightarrow>
        sent s' = sent s \<and>
        (if attempts (loops s ! l) < maxAttempts (loops s ! l)
         then loops s' = loops s \<and> pollRef s' = pollRef s \<and> error s' = error s
         else no_timer_armed s' \<and> pollRef s' = None \<and> error s' = Some timeout_message))"
proof -
  define s where "s = run init evs"
  define s0 where "s0 = s\<lparr>settled := i # settled s\<rparr>"
  define s' where "s' = step s (Settles i (Resp r))"
  have ot: "one_timer s0" using reachable_one_timer [of evs]
    by (simp add: s0_def s_def one_timer_def)
  have st: "s' = doPoll_status l (Resp r) s0"
    using assms(1-3) by (simp add: on_settle_def s_def s0_def s'_def)
  have s0: "sent s0 = sent s" "loops s0 = loops s" "pollRef s0 = pollRef s" "error s0 = error s"
    by (simp_all add: s0_def)
  have "req_ok (loops s) (sent s ! i)"
    using reachable_sent_ok [of evs] assms(1) unfolding s_def by (rule sent_ok_nth)
  then have lj: "l_jobId (loops s ! l) = j" using assms(3) by (simp add: req_ok_def s_def)
  have A: "sent s' = sent s @ [ResultFetch l j] \<and>
        (\<forall>evs' f. let t = run s' evs'; t' = step t (Settles (length (sent s)) f) in
           length (sent s) \<notin> set (settled t) \<longrightarrow>
           pollRef t' = None \<and> no_timer_armed t' \<and> sent t' = sent t)"
    if d: "is_done (status_of r)"
  proof -
    note e = doPoll_status_done [OF assms(4) d, where l = l and s = s0, folded st]
    have 1: "sent s' = sent s @ [ResultFetch l j]" using e(1) s0 lj by simp
    have 3: "pollRef t' = None \<and> no_timer_armed t' \<and> sent t' = sent t"
      if t: "t = run s' evs'" and t': "t' = step t (Settles (length (sent s)) f)"
        and p: "length (sent s) \<notin> set (settled t)" for evs' f t t'
    proof -
      have "t = run init (evs @ Settles i (Resp r) # evs')"
        by (simp add: t run_append s'_def s_def)
      then have ott: "one_timer t" by (simp only: reachable_one_timer)
      then have ot0: "one_timer (t\<lparr>settled := length (sent s) # settled t\<rparr>)"
        by (simp add: one_timer_def)
      have "evolves s' t" unfolding t by (rule evolves_run)
      from evolves_sent_nth [OF this, of "length (sent s)"] 1
      have n: "sent t ! length (sent s) = ResultFetch l j" "length (sent s) < length (sent t)"
        by simp_all
      have "t' = doPoll_result l f (t\<lparr>settled := length (sent s) # settled t\<rparr>)"
        using p n by (simp add: t' on_settle_def)
      with doPoll_result_stops [OF ot0, where l = l and f = f] show ?thesis by simp
    qed
    have "\<forall>evs' f. let t = run s' evs'; t' = step t (Settles (length (sent s)) f) in
           length (sent s) \<notin> set (settled t) \<longrightarrow>
           pollRef t' = None \<and> no_timer_armed t' \<and> sent t' = sent t"
      unfolding Let_def using 3 by blast
    with 1 show ?thesis by blast
  qed
  have B: "sent s' = sent s \<and> pollRef s' = None \<and> no_timer_armed s'"
    if d: "is_failed (status_of r)"
    using doPoll_status_failed [OF assms(4) d done_not_failed [OF d] ot, where l = l, folded st] s0
    by simp
  have C: "sent s' = sent s \<and>
        (if attempts (loops s ! l) < maxAttempts (loops s ! l)
         then loops s' = loops s \<and> pollRef s' = pollRef s \<and> error s' = error s
         else no_timer_armed s' \<and> pollRef s' = None \<and> error s' = Some timeout_message)"
    if d: "\<not> is_failed (status_of r)" "\<not> is_done (status_of r)"
    using doPoll_status_other [OF assms(4) d, where l = l and s = s0, folded st] ot s0
    by simp
  have split: "st \<notin> {''done'', ''succeeded'', ''complete'', ''failed'', ''error''} \<longleftrightarrow>
      \<not> is_failed st \<and> \<not> is_done st" for st
    by (auto simp: is_done_def is_failed_def)
  show ?thesis
    unfolding Let_def s_def [symmetric] s'_def [symmetric] split
      is_done_iff [symmetric] is_failed_iff [symmetric]
    using A [unfolded Let_def] B C by blast
qed



lemma last_request:
  "1 \<le> a \<Longrightarrow> (base @ replicate a q) ! (length (base @ replicate a q) - 1) = q"
proof -
  assume "1 \<le> a"
  then have "length (base @ replicate a q) - 1 = length base + (a - 1)" by simp
  moreover have "(base @ replicate a q) ! (length base + (a - 1)) = replicate a q ! (a - 1)"
    by (rule nth_append_length_plus)
  moreover have "replicate a q ! (a - 1) = q" using \<open>1 \<le> a\<close> by simp
  ultimately show ?thesis by simp
qed

lemma round_polling:
  assumes p: "polling_at base mnt l jid n a t" and a: "int a < n"
    and r: "ok r" "\<not> is_done (status_of r)" "\<not> is_failed (status_of r)"
  shows "polling_at base mnt l jid n (Suc a)
           (step (step t (Settles (length (sent t) - 1) (Resp r))) (TimerFires l))"
proof -
  define i where "i = length (sent t) - 1"
  define t0 where "t0 = t\<lparr>settled := i # settled t\<rparr>"
  define t1 where "t1 = note_status jid (status_of r) (parsed r) t0"
  from p have a1: "1 \<le> a" and len: "length (loops t) = Suc l"
    and lp: "loops t ! l = \<lparr>l_jobId = jid, attempts = int a, maxAttempts = n, timer_on = True\<rparr>"
    and off: "\<forall>i<l. \<not> timer_on (loops t ! i)" and pr: "pollRef t = Some l"
    and snt: "sent t = base @ replicate a (StatusCheck l jid)"
    and stl: "\<forall>i\<in>set (settled t). i < length (sent t) - 1" and m: "mountedRef t = mnt"
    unfolding polling_at_def by blast+
  have i1: "i < length (sent t)" using a1 snt by (simp add: i_def)
  have i2: "i \<notin> set (settled t)" using stl by (auto simp: i_def)
  have i3: "sent t ! i = StatusCheck l jid" using last_request [OF a1] snt by (simp add: i_def)
  have s1: "step t (Settles i (Resp r)) = doPoll_status l (Resp r) t0"
    using i1 i2 i3 by (simp add: on_settle_def t0_def)
  have s2: "doPoll_status l (Resp r) t0 = t1"
    using r a lp by (simp add: doPoll_status_def Let_def t1_def t0_def)
  have t1: "loops t1 = loops t" "sent t1 = sent t" "pollRef t1 = pollRef t"
    "settled t1 = i # settled t" "mountedRef t1 = mountedRef t"
    by (simp_all add: t1_def t0_def)
  have s3: "step t1 (TimerFires l) = doPoll_begin l t1"
    using len lp by (simp add: t1)
  define t2 where "t2 = doPoll_begin l t1"
  have t2: "loops t2 = (loops t)[l := \<lparr>l_jobId = jid, attempts = int a + 1, maxAttempts = n, timer_on = True\<rparr>]"
    "sent t2 = sent t @ [StatusCheck l jid]" "pollRef t2 = Some l"
    "settled t2 = i # settled t" "mountedRef t2 = mnt"
    using lp pr m by (simp_all add: t2_def doPoll_begin_def Let_def t1)
  have "polling_at base mnt l jid n (Suc a) t2"
    unfolding polling_at_def
    using t2 len off snt stl i1
    by (auto simp: i_def replicate_append_same nth_list_update)
  moreover have "step (step t (Settles i (Resp r))) (TimerFires l) = t2"
    by (simp only: s1 s2 s3 t2_def)
  ultimately show ?thesis unfolding i_def by simp
qed

lemma round_timeout:
  assumes p: "polling_at base mnt l jid n a t" and a: "n \<le> int a"
    and r: "ok r" "\<not> is_done (status_of r)" "\<not> is_failed (status_of r)"
  shows "gave_up base mnt l jid (status_of r) a
           (step (step t (Settles (length (sent t) - 1) (Resp r))) (TimerFires l))"
proof -
  define i where "i = length (sent t) - 1"
  define t0 where "t0 = t\<lparr>settled := i # settled t\<rparr>"
  define t1 where "t1 = note_status jid (status_of r) (parsed r) t0"
  define t2 where "t2 = stop_poll (t1\<lparr>error := Some timeout_message\<rparr>)"
  from p have a1: "1 \<le> a" and len: "length (loops t) = Suc l"
    and lp: "loops t ! l = \<lparr>l_jobId = jid, attempts = int a, maxAttempts = n, timer_on = True\<rparr>"
    and off: "\<forall>i<l. \<not> timer_on (loops t ! i)" and pr: "pollRef t = Some l"
    and snt: "sent t = base @ replicate a (StatusCheck l jid)"
    and stl: "\<forall>i\<in>set (settled t). i < length (sent t) - 1" and m: "mountedRef t = mnt"
    unfolding polling_at_def by blast+
  have i1: "i < length (sent t)" using a1 snt by (simp add: i_def)
  have i2: "i \<notin> set (settled t)" using stl by (auto simp: i_def)
  have i3: "sent t ! i = StatusCheck l jid" using last_request [OF a1] snt by (simp add: i_def)
  have s1: "step t (Settles i (Resp r)) = doPoll_status l (Resp r) t0"
    using i1 i2 i3 by (simp add: on_settle_def t0_def)
  have s2: "doPoll_status l (Resp r) t0 = t2"
    using r a lp by (simp add: doPoll_status_def Let_def t2_def t1_def t0_def)
  have t1: "loops t1 = loops t" "sent t1 = sent t" "pollRef t1 = pollRef t"
    "settled t1 = i # settled t" "mountedRef t1 = mountedRef t"
    "mnt \<longrightarrow> (\<exists>p. pendingJob t1 = Some p \<and> status p = status_of r)"
    using m by (simp_all add: t1_def t0_def note_status_def Let_def)
  have t2: "length (loops t2) = Suc l" "sent t2 = sent t" "pollRef t2 = None"
    "settled t2 = i # settled t" "error t2 = Some timeout_message"
    "pendingJob t2 = pendingJob t1"
    using len by (simp_all add: t2_def t1)
  have arm: "no_timer_armed t2"
    unfolding no_timer_armed_def t2_def using off len pr
    by (auto simp: t1 less_Suc_eq)
  then have s3: "step t2 (TimerFires l) = t2"
    using t2(1) by (simp add: no_timer_armed_def)
  have "gave_up base mnt l jid (status_of r) a t2"
    unfolding gave_up_def using a1 t2 arm snt t1(6) by (simp add: i_def)
  moreover have "step (step t (Settles i (Resp r))) (TimerFires l) = t2"
    by (simp only: s1 s2 s3)
  ultimately show ?thesis unfolding i_def by simp
qed

lemma round_gave_up:
  assumes "gave_up base mnt l jid st a t"
  shows "step (step t (Settles (length (sent t) - 1) f)) (TimerFires l) = t"
proof -
  from assms have 1: "length (sent t) - 1 \<in> set (settled t)" and 2: "no_timer_armed t"
    unfolding gave_up_def by blast+
  from 1 have "step t (Settles (length (sent t) - 1) f) = t"
    by (simp add: on_settle_def)
  moreover from 2 have "step t (TimerFires l) = t"
    by (auto simp: no_timer_armed_def)
  ultimately show ?thesis by simp
qed

lemma in_turn_gave_up:
  "gave_up base mnt l jid st a t \<Longrightarrow> in_turn l fs t = t"
proof (induction fs)
  case Nil
  show ?case by simp
next
  case (Cons f fs)
  have "in_turn l (f # fs) t =
      in_turn l fs (step (step t (Settles (length (sent t) - 1) f)) (TimerFires l))"
    by (rule in_turn.simps)
  also have "\<dots> = in_turn l fs t" by (simp only: round_gave_up [OF Cons.prems])
  finally show ?case using Cons by simp
qed

text \<open>
  The answers \<open>rs\<close> are all non-terminal. A loop that has made \<open>a\<close> checks goes on
  until the check number \<open>max a n\<close> has been answered; the answer to that check is
  \<open>rs ! (max a n - a)\<close>.
\<close>

lemma in_turn_polling:
  assumes "\<forall>r\<in>set rs. ok r \<and> \<not> is_done (status_of r) \<and> \<not> is_failed (status_of r)"
    and "polling_at base mnt l jid n a t"
  shows "(let t' = in_turn l (map Resp rs) t; m = max a (nat n) in
       if a + length rs \<le> m then polling_at base mnt l jid n (a + length rs) t'
       else gave_up base mnt l jid (status_of (rs ! (m - a))) m t')"
  using assms
proof (induction rs arbitrary: a t)
  case Nil
  then show ?case by (simp add: Let_def)
next
  case (Cons r rs)
  define t' where "t' = step (step t (Settles (length (sent t) - 1) (Resp r))) (TimerFires l)"
  have it: "in_turn l (map Resp (r # rs)) t = in_turn l (map Resp rs) t'"
    by (simp add: t'_def)
  have r: "ok r" "\<not> is_done (status_of r)" "\<not> is_failed (status_of r)"
    using Cons.prems(1) by simp_all
  have rs: "\<forall>r\<in>set rs. ok r \<and> \<not> is_done (status_of r) \<and> \<not> is_failed (status_of r)"
    using Cons.prems(1) by simp
  show ?case
  proof (cases "int a < n")
    case True
    from round_polling [OF Cons.prems(2) True r]
    have "polling_at base mnt l jid n (Suc a) t'" unfolding t'_def .
    from Cons.IH [OF rs this]
    have ih: "if Suc a + length rs \<le> max (Suc a) (nat n)
          then polling_at base mnt l jid n (Suc a + length rs) (in_turn l (map Resp rs) t')
          else gave_up base mnt l jid (status_of (rs ! (max (Suc a) (nat n) - Suc a)))
                 (max (Suc a) (nat n)) (in_turn l (map Resp rs) t')"
      by (simp only: Let_def)
    from True have m: "max (Suc a) (nat n) = max a (nat n)" by auto
    from True have "Suc a \<le> max a (nat n)" by auto
    then have "max a (nat n) - a = Suc (max a (nat n) - Suc a)" by simp
    then have nth: "(r # rs) ! (max a (nat n) - a) = rs ! (max a (nat n) - Suc a)" by simp
    have len: "a + length (r # rs) = Suc a + length rs" by simp
    show ?thesis unfolding Let_def it nth len using ih unfolding m .
  next
    case False
    then have le: "n \<le> int a" by simp
    from round_timeout [OF Cons.prems(2) le r]
    have g: "gave_up base mnt l jid (status_of r) a t'" unfolding t'_def .
    have m: "max a (nat n) = a" using le by simp
    have e: "in_turn l (map Resp rs) t' = t'" by (rule in_turn_gave_up [OF g])
    show ?thesis unfolding Let_def it e using g by (simp add: m)
  qed
qed

lemma pollJobStatus_polling:
  assumes "jid \<noteq> []" "one_timer s" "sent_ok s"
  shows "polling_at (sent s) (mountedRef s) (length (loops s)) jid n 1 (pollJobStatus jid n s)"
  unfolding polling_at_def
  using pollJobStatus_effect [OF assms(1,2), of n] assms(3)
  by (auto simp: sent_ok_def)

text \<open>
  Claim C3, amended. The status endpoint always answers with a non-terminal status
  (\<open>rs\<close> lists its answers, in order) and every answer is handled before the next tick.
  With \<open>m = max 1 n\<close> for \<open>maxAttempts = n\<close>, after \<open>k\<close> rounds exactly
  \<open>min (k + 1) m\<close> status checks have been issued; while \<open>k < m\<close> the timer is still
  armed, and from round \<open>m\<close> on the loop has stopped with the timeout message, no
  timer armed, and the tracked job still in the non-terminal status that the last
  answer handled, the one to check \<open>m\<close>, carried (not failed).
\<close>

theorem poll_gives_up_after_max_attempts:
  assumes "jid \<noteq> []"
    and "\<forall>r\<in>set rs. ok r \<and>
           status_of r \<notin> {''done'', ''succeeded'', ''complete'', ''failed'', ''error''}"
  shows "let s = run init evs; l = length (loops s); m = max 1 (nat n); k = length rs;
             t = in_turn l (map Resp rs) (pollJobStatus jid n s) in
           sent t = sent s @ replicate (min (Suc k) m) (StatusCheck l jid) \<and>
           (k < m \<longrightarrow> timer_on (loops t ! l) \<and> pollRef t = Some l) \<and>
           (m \<le> k \<longrightarrow> error t = Some timeout_message \<and> pollRef t = None \<and> no_timer_armed t \<and>
              (mountedRef s \<longrightarrow>
                 (\<exists>p. pendingJob t = Some p \<and> status p = status_of (rs ! (m - 1)))))"
proof -
  define s where "s = run init evs"
  define l where "l = length (loops s)"
  define m where "m = max 1 (nat n)"
  define k where "k = length rs"
  define t where "t = in_turn l (map Resp rs) (pollJobStatus jid n s)"
  have r: "\<forall>r\<in>set rs. ok r \<and> \<not> is_done (status_of r) \<and> \<not> is_failed (status_of r)"
    using assms(2) by (auto simp: is_done_def is_failed_def)
  have "polling_at (sent s) (mountedRef s) l jid n 1 (pollJobStatus jid n s)"
    unfolding l_def s_def
    by (rule pollJobStatus_polling [OF assms(1) reachable_one_timer reachable_sent_ok])
  from in_turn_polling [OF r this]
  have c: "if 1 + k \<le> m then polling_at (sent s) (mountedRef s) l jid n (1 + k) t
           else gave_up (sent s) (mountedRef s) l jid (status_of (rs ! (m - 1))) m t"
    by (simp only: Let_def m_def t_def k_def)
  have "sent t = sent s @ replicate (min (Suc k) m) (StatusCheck l jid) \<and>
           (k < m \<longrightarrow> timer_on (loops t ! l) \<and> pollRef t = Some l) \<and>
           (m \<le> k \<longrightarrow> error t = Some timeout_message \<and> pollRef t = None \<and> no_timer_armed t \<and>
              (mountedRef s \<longrightarrow>
                 (\<exists>p. pendingJob t = Some p \<and> status p = status_of (rs ! (m - 1)))))"
  proof (cases "1 + k \<le> m")
    case True
    with c have "polling_at (sent s) (mountedRef s) l jid n (1 + k) t" by simp
    then show ?thesis using True by (simp add: polling_at_def min_def)
  next
    case False
    with c have "gave_up (sent s) (mountedRef s) l jid (status_of (rs ! (m - 1))) m t" by simp
    then show ?thesis using False by (simp add: gave_up_def min_def)
  qed
  then show ?thesis
    unfolding Let_def s_def [symmetric] l_def [symmetric] m_def [symmetric] k_def [symmetric]
      t_def [symmetric] .
qed

lemma status_of_status_reply: "st \<noteq> [] \<Longrightarrow> status_of (status_reply st) = st"
  by (simp add: status_of_def status_reply_def json_response_def parsed_def js_or_def truthy_def
      or_str_def no_body_def)

lemma ok_status_reply: "ok (status_reply st)"
  by (simp add: ok_def status_reply_def json_response_def)

theorem poll_gives_up_after_max_attempts_witness:
  "''j1'' \<noteq> [] \<and>
   list_all (\<lambda>r. ok r \<and> status_of r \<notin> {''done'', ''succeeded'', ''complete'', ''failed'', ''error''})
     [status_reply ''queued'', status_reply ''running'', status_reply ''running'',
      status_reply ''finishing''] \<and>
   sent (in_turn 0 (map Resp [status_reply ''queued'', status_reply ''running'',
                              status_reply ''running'', status_reply ''finishing''])
           (pollJobStatus ''j1'' 3 (run init []))) =
     [StatusCheck 0 ''j1'', StatusCheck 0 ''j1'', StatusCheck 0 ''j1''] \<and>
   error (in_turn 0 (map Resp [status_reply ''queued'', status_reply ''running'',
                               status_reply ''running'', status_reply ''finishing''])
            (pollJobStatus ''j1'' 3 (run init []))) = Some timeout_message \<and>
   (\<exists>p. pendingJob (in_turn 0 (map Resp [status_reply ''queued'', status_reply ''running'',
                                          status_reply ''running'', status_reply ''finishing''])
                       (pollJobStatus ''j1'' 3 (run init []))) = Some p \<and>
        status p = ''running'')"
proof -
  let ?rs = "[status_reply ''queued'', status_reply ''running'', status_reply ''running'',
              status_reply ''finishing'']"
  define t where "t = in_turn 0 (map Resp ?rs) (pollJobStatus ''j1'' 3 (run init []))"
  have h1: "''j1'' \<noteq> []" by simp
  have h2: "\<forall>r\<in>set ?rs. ok r \<and>
      status_of r \<notin> {''done'', ''succeeded'', ''complete'', ''failed'', ''error''}"
    by (simp add: ok_status_reply status_of_status_reply)
  have e: "sent (run init []) = []" "length (loops (run init [])) = 0" "mountedRef (run init [])"
    by (simp_all add: init_def)
  have m: "min (Suc (length ?rs)) (max 1 (nat 3)) = 3" "max 1 (nat 3) \<le> length ?rs"
    "max 1 (nat 3) - 1 = (2::nat)" by simp_all
  have rp: "replicate 3 q = [q, q, q]" for q :: request by (simp add: eval_nat_numeral)
  have n2: "status_of (?rs ! 2) = ''running''" by (simp add: status_of_status_reply)
  note c = poll_gives_up_after_max_attempts [OF h1 h2, of "[]" 3, unfolded Let_def e, folded t_def]
  from c have "sent t = [StatusCheck 0 ''j1'', StatusCheck 0 ''j1'', StatusCheck 0 ''j1''] \<and>
      error t = Some timeout_message \<and> (\<exists>p. pendingJob t = Some p \<and> status p = ''running'')"
    unfolding m rp n2 using e(3) by simp
  moreover from h2 have "list_all (\<lambda>r. ok r \<and>
      status_of r \<notin> {''done'', ''succeeded'', ''complete'', ''failed'', ''error''}) ?rs"
    unfolding list_all_iff .
  ultimately show ?thesis using h1 unfolding t_def by blast
qed

text \<open>
  Claim C3 as stated fails. With \<open>maxAttempts = 0\<close> the first check is still
  issued before the budget is looked at: one status check, not none. And with \<open>maxAttempts = 1\<close>, a tick that comes
  before the first answer issues a second check.
\<close>

theorem zero_max_attempts_still_checks_once:
  "sent (in_turn 0 [Resp (status_reply ''queued''), Resp (status_reply ''queued'')]
           (pollJobStatus ''j1'' 0 init)) =
     [StatusCheck 0 ''j1''] \<and>
   error (in_turn 0 [Resp (status_reply ''queued''), Resp (status_reply ''queued'')]
            (pollJobStatus ''j1'' 0 init)) =
     Some timeout_message \<and>
   sent (run (pollJobStatus ''j1'' 1 init)
           [TimerFires 0, Settles 0 (Resp (status_reply ''queued'')),
            Settles 1 (Resp (status_reply ''queued''))]) =
     [StatusCheck 0 ''j1'', StatusCheck 0 ''j1'']"
  by (simp add: model_defs)

theorem poll_failure_stops_loop_witness:
  "1 < length (sent (run init polling_j1)) \<and> 1 \<notin> set (settled (run init polling_j1)) \<and>
   sent (run init polling_j1) ! 1 = StatusCheck 0 ''j1'' \<and>
   transport_failure (Threw ''TypeError'' ''Failed to fetch'') \<and>
   (let s = run init polling_j1; s' = step s (Settles 1 (Threw ''TypeError'' ''Failed to fetch''));
        t = run s' [TimerFires 0] in
           (\<forall>k<length (loops s'). \<not> timer_on (loops s' ! k)) \<and>
           pollRef s' = None \<and>
           error s' = Some (poll_error_text (Threw ''TypeError'' ''Failed to fetch'')) \<and>
           sent s' = sent s \<and> length (loops s') = length (loops s) \<and>
           (\<forall>l' j'. StatusCheck l' j' \<in> set (drop (length (sent s)) (sent t)) \<longrightarrow>
                length (loops s) \<le> l'))"
proof -
  have h1: "1 < length (sent (run init polling_j1))" by (simp add: polling_j1_state)
  have h2: "1 \<notin> set (settled (run init polling_j1))" by (simp add: polling_j1_state)
  have h3: "sent (run init polling_j1) ! 1 = StatusCheck 0 ''j1''" by (simp add: polling_j1_state)
  have h4: "transport_failure (Threw ''TypeError'' ''Failed to fetch'')"
    by (simp add: transport_failure_def)
  from poll_failure_stops_loop [OF h1 h2 h3 h4, of "[TimerFires 0]"] h1 h2 h3 h4
  show ?thesis by blast
qed

theorem status_classification_witness:
  "1 < length (sent (run init polling_j1)) \<and> 1 \<notin> set (settled (run init polling_j1)) \<and>
   sent (run init polling_j1) ! 1 = StatusCheck 0 ''j1'' \<and> ok (status_reply ''succeeded'') \<and>
   status_of (status_reply ''succeeded'') \<in> {''done'', ''succeeded'', ''complete''} \<and>
   sent (step (run init polling_j1) (Settles 1 (Resp (status_reply ''succeeded'')))) =
     sent (run init polling_j1) @ [ResultFetch 0 ''j1'']"
proof -
  have h1: "1 < length (sent (run init polling_j1))" by (simp add: polling_j1_state)
  have h2: "1 \<notin> set (settled (run init polling_j1))" by (simp add: polling_j1_state)
  have h3: "sent (run init polling_j1) ! 1 = StatusCheck 0 ''j1''" by (simp add: polling_j1_state)
  have h4: "ok (status_reply ''succeeded'')" by (simp add: ok_def status_reply_def json_response_def)
  have h5: "status_of (status_reply ''succeeded'') \<in> {''done'', ''succeeded'', ''complete''}"
    by (simp add: status_of_def status_reply_def json_response_def parsed_def js_or_def truthy_def
        or_str_def no_body_def)
  from status_classification [OF h1 h2 h3 h4, unfolded Let_def] h5
  have "sent (step (run init polling_j1) (Settles 1 (Resp (status_reply ''succeeded'')))) =
     sent (run init polling_j1) @ [ResultFetch 0 ''j1'']" by blast
  with h1 h2 h3 h4 h5 show ?thesis by blast
qed



lemma polling_j1_polling_at:
  "polling_at [Analyze ''f1''] True 0 ''j1'' 120 1 (run init polling_j1)"
  by (simp add: polling_at_def polling_j1_state)

text \<open>
  Claim C1 as stated fails in two places. After the status \<open>succeeded\<close> the interval
  timer of the loop is still armed and \<open>pollRef\<close> still holds it: polling has not
  stopped with the status, it stops when the result fetch has settled. And a status
  that is neither done nor failed does not always let polling continue: the answer
  \<open>running\<close> to check number 120, the default budget, stops the loop with the timeout
  message.
\<close>

theorem polling_not_as_classified:
  "timer_on (loops (run init (polling_j1 @ [Settles 1 (Resp (status_reply ''succeeded''))])) ! 0) \<and>
   pollRef (run init (polling_j1 @ [Settles 1 (Resp (status_reply ''succeeded''))])) = Some 0 \<and>
   error (in_turn 0 (map Resp (replicate 120 (status_reply ''running''))) (run init polling_j1)) =
     Some timeout_message \<and>
   pollRef (in_turn 0 (map Resp (replicate 120 (status_reply ''running''))) (run init polling_j1)) =
     None \<and>
   map timer_on
     (loops (in_turn 0 (map Resp (replicate 120 (status_reply ''running''))) (run init polling_j1))) =
     [False]"
proof -
  define t where
    "t = in_turn 0 (map Resp (replicate 120 (status_reply ''running''))) (run init polling_j1)"
  have a: "timer_on (loops (run init (polling_j1 @ [Settles 1 (Resp (status_reply ''succeeded''))])) ! 0) \<and>
      pollRef (run init (polling_j1 @ [Settles 1 (Resp (status_reply ''succeeded''))])) = Some 0"
    by (simp add: run_append polling_j1_state) (simp add: model_defs)
  have r: "\<forall>r\<in>set (replicate 120 (status_reply ''running'')).
      ok r \<and> \<not> is_done (status_of r) \<and> \<not> is_failed (status_of r)"
    by (simp add: ok_status_reply status_of_status_reply is_done_def is_failed_def)
  from in_turn_polling [OF r polling_j1_polling_at, unfolded Let_def, folded t_def]
  have g: "gave_up [Analyze ''f1''] True 0 ''j1''
      (status_of (replicate 120 (status_reply ''running'') ! (max 1 (nat 120) - 1))) (max 1 (nat 120)) t"
    by simp
  then have e: "error t = Some timeout_message" "pollRef t = None"
    and l: "length (loops t) = Suc 0" and n: "no_timer_armed t"
    unfolding gave_up_def by blast+
  from l obtain x where x: "loops t = [x]" by (auto simp: length_Suc_conv)
  with n have "\<not> timer_on x" by (simp add: no_timer_armed_def)
  with x have "map timer_on (loops t) = [False]" by simp
  with a e show ?thesis unfolding t_def by blast
qed
section \<open>The logs page: tokens, aborts and the downgrade\<close>


lemma sig_abort_fetch [simp]: "map sig (abort_fetch t fs) = map sig fs"
  by (simp add: abort_fetch_def sig_def)

lemma sig_mark_answered [simp]: "map sig (mark_answered t fs) = map sig fs"
  by (simp add: mark_answered_def sig_def)

lemma token_abort_fetch [simp]: "map token (abort_fetch t fs) = map token fs"
  by (simp add: abort_fetch_def)

lemma token_mark_answered [simp]: "map token (mark_answered t fs) = map token fs"
  by (simp add: mark_answered_def)









lemma settle_fields [simp]:
  "fetches (fetchLogsFromServer_settle rt f out s) = fetches s"
  "fetchIdRef (fetchLogsFromServer_settle rt f out s) = fetchIdRef s"
  "inflightController (fetchLogsFromServer_settle rt f out s) = inflightController s"
  "searchTimeout (fetchLogsFromServer_settle rt f out s) = searchTimeout s"
  "q' (fetchLogsFromServer_settle rt f out s) = q' s"
  "limit (fetchLogsFromServer_settle rt f out s) = limit s"
  "selectedUploadId (fetchLogsFromServer_settle rt f out s) = selectedUploadId s"
  "levelFilter (fetchLogsFromServer_settle rt f out s) = levelFilter s"
  "deletes (fetchLogsFromServer_settle rt f out s) = deletes s"
  by (auto simp: fetchLogsFromServer_settle_def clear_loading_if_latest_def Let_def
      split: list_outcome.splits)



lemma begin_fields [simp]:
  "logs (fetchLogsFromServer_begin org u p s) = logs s"
  "serverFilteringSupported (fetchLogsFromServer_begin org u p s) = serverFilteringSupported s"
  "deletes (fetchLogsFromServer_begin org u p s) = deletes s"
  "q' (fetchLogsFromServer_begin org u p s) = q' s"
  "limit (fetchLogsFromServer_begin org u p s) = limit s"
  "selectedUploadId (fetchLogsFromServer_begin org u p s) = selectedUploadId s"
  "levelFilter (fetchLogsFromServer_begin org u p s) = levelFilter s"
  by (simp_all add: fetchLogsFromServer_begin_def Let_def)

lemma cleanup_fields [simp]:
  "serverFilteringSupported (effect_cleanup s) = serverFilteringSupported s"
  "q' (effect_cleanup s) = q' s" "fetchIdRef (effect_cleanup s) = fetchIdRef s"
  "logs (effect_cleanup s) = logs s" "deletes (effect_cleanup s) = deletes s"
  "limit (effect_cleanup s) = limit s" "selectedUploadId (effect_cleanup s) = selectedUploadId s"
  "levelFilter (effect_cleanup s) = levelFilter s"
  by (simp_all add: effect_cleanup_def)

lemma effect_fields [simp]:
  "logs (filter_effect rt s) = logs s"
  "serverFilteringSupported (filter_effect rt s) = serverFilteringSupported s"
  "deletes (filter_effect rt s) = deletes s"
  "q' (filter_effect rt s) = q' s" "limit (filter_effect rt s) = limit s"
  "selectedUploadId (filter_effect rt s) = selectedUploadId s"
  "levelFilter (filter_effect rt s) = levelFilter s"
  by (simp_all add: filter_effect_def Let_def)

lemma rerender_fields [simp]:
  "logs (rerender rt b s) = logs s"
  "serverFilteringSupported (rerender rt b s) = serverFilteringSupported s"
  "deletes (rerender rt b s) = deletes s"
  "q' (rerender rt b s) = q' s" "limit (rerender rt b s) = limit s"
  "selectedUploadId (rerender rt b s) = selectedUploadId s"
  "levelFilter (rerender rt b s) = levelFilter s"
  by (simp_all add: rerender_def)







lemma logs_run_Nil [simp]: "logs_run rt s [] = s"
  by (simp add: logs_run_def)

lemma logs_run_Cons [simp]: "logs_run rt s (e # es) = logs_run rt (logs_step rt s e) es"
  by (simp add: logs_run_def)








lemma sig_cleanup [simp]: "map sig (fetches (effect_cleanup s)) = map sig (fetches s)"
  by (simp add: effect_cleanup_def split: option.splits)




lemma closed_delete [simp]:
  "k < length ds \<Longrightarrow> d_flag (ds[i := (ds ! i)\<lparr>d_open := False\<rparr>] ! k) = d_flag (ds ! k)"
  "k < length ds \<Longrightarrow> d_open (ds[i := (ds ! i)\<lparr>d_open := False\<rparr>] ! k) = (k \<noteq> i \<and> d_open (ds ! k))"
  by (cases "k = i"; simp)+


















lemmas value_defs = fld_def get_prop_def prop_of_def truthy_v_def or_v_def nullish_def
  coalesce_def decimal_int_def logKey_def is_ref_def dedupeLogs_def upload_of_def
  spec_filter_predicate_def join_vals_def sample_runtime_def Let_def decimal.simps
  char_of_def bit_Suc_0_iff



section \<open>Deduplication and the merged cache\<close>


subsection \<open>dedupeLogs\<close>

lemma dedupe_loop_out: "dedupe_loop rt seen out arr = out @ dedupe_loop rt seen [] arr"
proof (induction arr arbitrary: seen out)
  case Nil
  show ?case by simp
next
  case (Cons r arr)
  show ?case
    using Cons [of "insert (logKey rt r) seen" "out @ [r]"] Cons [of "insert (logKey rt r) seen" "[r]"]
      Cons [of seen out]
    by (simp add: Let_def)
qed

lemma dedupe_loop_Cons:
  "dedupe_loop rt seen [] (r # arr) =
     (if is_ref (logKey rt r) \<or> logKey rt r \<notin> seen
      then r # dedupe_loop rt (insert (logKey rt r) seen) [] arr
      else dedupe_loop rt seen [] arr)"
  using dedupe_loop_out [of rt "insert (logKey rt r) seen" "[r]" arr] by (simp add: Let_def)

lemma dedupe_loop_keys:
  "set (map (logKey rt) (dedupe_loop rt seen [] arr)) =
     {k \<in> set (map (logKey rt) arr). is_ref k \<or> k \<notin> seen}"
proof (induction arr arbitrary: seen)
  case Nil
  show ?case by simp
next
  case (Cons r arr)
  show ?case unfolding dedupe_loop_Cons using Cons [of seen] Cons [of "insert (logKey rt r) seen"]
    by auto
qed

lemma dedupe_loop_distinct:
  "distinct (filter (\<lambda>k. \<not> is_ref k) (map (logKey rt) (dedupe_loop rt seen [] arr)))"
proof (induction arr arbitrary: seen)
  case Nil
  show ?case by simp
next
  case (Cons r arr)
  have "logKey rt r \<notin> set (map (logKey rt) (dedupe_loop rt (insert (logKey rt r) seen) [] arr))"
    if "\<not> is_ref (logKey rt r)"
    unfolding dedupe_loop_keys using that by simp
  then show ?case unfolding dedupe_loop_Cons using Cons by auto
qed

lemma dedupe_loop_refs:
  "filter (\<lambda>r. is_ref (logKey rt r)) (dedupe_loop rt seen [] arr) =
   filter (\<lambda>r. is_ref (logKey rt r)) arr"
proof (induction arr arbitrary: seen)
  case Nil
  show ?case by simp
next
  case (Cons r arr)
  show ?case unfolding dedupe_loop_Cons using Cons [of seen] Cons [of "insert (logKey rt r) seen"]
    by auto
qed

lemma dedupe_loop_subset: "set (dedupe_loop rt seen [] arr) \<subseteq> set arr"
proof (induction arr arbitrary: seen)
  case Nil
  show ?case by simp
next
  case (Cons r arr)
  show ?case unfolding dedupe_loop_Cons using Cons [of seen] Cons [of "insert (logKey rt r) seen"]
    by auto
qed

lemma dedupeLogs_distinct:
  "distinct (filter (\<lambda>k. \<not> is_ref k) (map (logKey rt) (dedupeLogs rt arr)))"
  unfolding dedupeLogs_def by (rule dedupe_loop_distinct)

lemma dedupeLogs_refs:
  "filter (\<lambda>r. is_ref (logKey rt r)) (dedupeLogs rt arr) = filter (\<lambda>r. is_ref (logKey rt r)) arr"
  unfolding dedupeLogs_def by (rule dedupe_loop_refs)

lemma dedupeLogs_keys: "set (map (logKey rt) (dedupeLogs rt arr)) = set (map (logKey rt) arr)"
  unfolding dedupeLogs_def dedupe_loop_keys by simp

lemma dedupeLogs_subset: "set (dedupeLogs rt arr) \<subseteq> set arr"
  unfolding dedupeLogs_def by (rule dedupe_loop_subset)

lemma dedupeLogs_pair:
  "logKey rt r1 = logKey rt r2 \<Longrightarrow> \<not> is_ref (logKey rt r1) \<Longrightarrow> dedupeLogs rt [r1, r2] = [r1]"
  by (simp add: dedupeLogs_def Let_def)

lemma logKey_id: "\<not> nullish (fld r ''id'') \<Longrightarrow> logKey rt r = fld r ''id''"
  by (simp add: logKey_def coalesce_def)

lemma logKey_composite:
  "nullish (fld r ''id'') \<Longrightarrow>
   logKey rt r = JStr (to_str rt (or_v rt (fld r ''timestamp'') (JStr [])) @ ''::'' @
                       to_str rt (or_v rt (or_v rt (fld r ''message'') (fld r ''raw'')) (JStr [])))"
  by (simp add: logKey_def coalesce_def)

subsection \<open>The keyed map\<close>

lemma map_set_keys:
  "map fst (map_set m k v) = (if k \<in> set (map fst m) then map fst m else map fst m @ [k])"
proof (induction m)
  case Nil
  show ?case by simp
next
  case (Cons p m)
  obtain k' v' where p: "p = (k', v')" by (cases p)
  show ?case
  proof (cases "k' = k")
    case True
    with p show ?thesis by simp
  next
    case False
    with p Cons show ?thesis by simp
  qed
qed

lemma map_set_fst: "fst ` set (map_set m k v) = insert k (fst ` set m)"
proof -
  have "set (map fst (map_set m k v)) = insert k (set (map fst m))"
    unfolding map_set_keys by auto
  then show ?thesis by simp
qed

lemma distinct_map_set: "distinct (map fst m) \<Longrightarrow> distinct (map fst (map_set m k v))"
  unfolding map_set_keys by auto

lemma map_set_entries:
  "distinct (map fst m) \<Longrightarrow> set (map_set m k v) = insert (k, v) {p \<in> set m. fst p \<noteq> k}"
proof (induction m)
  case Nil
  show ?case by simp
next
  case (Cons p m)
  obtain k' v' where p: "p = (k', v')" by (cases p)
  show ?case
  proof (cases "k' = k")
    case True
    have "k \<notin> fst ` set m" using Cons.prems p True by simp
    then have "\<forall>q\<in>set m. fst q \<noteq> k" by (metis image_eqI)
    then have "{q \<in> set m. fst q \<noteq> k} = set m" by blast
    moreover have "{q \<in> set (p # m). fst q \<noteq> k} = {q \<in> set m. fst q \<noteq> k}"
      using p True by auto
    moreover have "set (map_set (p # m) k v) = insert (k, v) (set m)"
      using p True by simp
    ultimately show ?thesis by simp
  next
    case False
    have d: "distinct (map fst m)" using Cons.prems by simp
    have "set (map_set (p # m) k v) = insert p (set (map_set m k v))"
      using p False by simp
    also have "set (map_set m k v) = insert (k, v) {q \<in> set m. fst q \<noteq> k}"
      by (rule Cons.IH [OF d])
    also have "insert p (insert (k, v) {q \<in> set m. fst q \<noteq> k}) =
        insert (k, v) {q \<in> set (p # m). fst q \<noteq> k}"
      using p False by auto
    finally show ?thesis .
  qed
qed

lemma keyed_map_set:
  "keyed rt m \<Longrightarrow> k = stableLogKey rt v \<Longrightarrow> keyed rt (map_set m k v)"
  unfolding keyed_def by (auto simp: distinct_map_set map_set_entries)

lemma keyed_Nil: "keyed rt []"
  by (simp add: keyed_def)

lemma set_all_Cons:
  "set_all rt m (r # rows) = set_all rt (map_set m (stableLogKey rt r) r) rows"
  by (simp add: set_all_def)

lemma set_checked_Cons:
  "set_checked rt m (r # rows) =
     set_checked rt (if stableLogKey rt r \<noteq> [] then map_set m (stableLogKey rt r) r else m) rows"
  by (simp add: set_checked_def Let_def)

lemma set_all_Nil: "set_all rt m [] = m"
  by (simp add: set_all_def)

lemma set_checked_Nil: "set_checked rt m [] = m"
  by (simp add: set_checked_def)

lemma keyed_set_all: "keyed rt m \<Longrightarrow> keyed rt (set_all rt m rows)"
proof (induction rows arbitrary: m)
  case Nil
  then show ?case by (simp only: set_all_Nil)
next
  case (Cons r rows)
  have "keyed rt (map_set m (stableLogKey rt r) r)"
    using Cons.prems by (rule keyed_map_set) simp
  then show ?case unfolding set_all_Cons by (rule Cons.IH)
qed

lemma keyed_set_checked: "keyed rt m \<Longrightarrow> keyed rt (set_checked rt m rows)"
proof (induction rows arbitrary: m)
  case Nil
  then show ?case by (simp only: set_checked_Nil)
next
  case (Cons r rows)
  have "keyed rt (map_set m (stableLogKey rt r) r)"
    using Cons.prems by (rule keyed_map_set) simp
  with Cons.prems
  have "keyed rt (if stableLogKey rt r \<noteq> [] then map_set m (stableLogKey rt r) r else m)"
    by simp
  then show ?case unfolding set_checked_Cons by (rule Cons.IH)
qed

lemma set_all_keys:
  "fst ` set (set_all rt m rows) = fst ` set m \<union> stableLogKey rt ` set rows"
proof (induction rows arbitrary: m)
  case Nil
  show ?case by (simp add: set_all_Nil)
next
  case (Cons r rows)
  have "fst ` set (set_all rt m (r # rows)) =
      fst ` set (map_set m (stableLogKey rt r) r) \<union> stableLogKey rt ` set rows"
    unfolding set_all_Cons by (rule Cons.IH)
  also have "\<dots> = fst ` set m \<union> stableLogKey rt ` set (r # rows)"
    unfolding map_set_fst by auto
  finally show ?case .
qed

lemma set_checked_keys:
  "fst ` set (set_checked rt m rows) = fst ` set m \<union> (stableLogKey rt ` set rows - {[]})"
proof (induction rows arbitrary: m)
  case Nil
  show ?case by (simp add: set_checked_Nil)
next
  case (Cons r rows)
  let ?m = "if stableLogKey rt r \<noteq> [] then map_set m (stableLogKey rt r) r else m"
  have "fst ` set (set_checked rt m (r # rows)) =
      fst ` set ?m \<union> (stableLogKey rt ` set rows - {[]})"
    unfolding set_checked_Cons by (rule Cons.IH)
  also have "fst ` set ?m = fst ` set m \<union> ({stableLogKey rt r} - {[]})"
    by (cases "stableLogKey rt r = []") (simp_all add: map_set_fst)
  finally show ?case by auto
qed

text \<open>A row set later replaces the row filed under the same key.\<close>

lemma set_all_entries:
  "keyed rt m \<Longrightarrow> (k, r) \<in> set (set_all rt m rows) \<Longrightarrow>
   (r \<in> set rows) \<or> ((k, r) \<in> set m \<and> k \<notin> stableLogKey rt ` set rows)"
proof (induction rows arbitrary: m)
  case Nil
  then show ?case by (simp add: set_all_Nil)
next
  case (Cons x rows)
  let ?m = "map_set m (stableLogKey rt x) x"
  have k: "keyed rt ?m" using Cons.prems(1) by (rule keyed_map_set) simp
  from Cons.prems(2) have "(k, r) \<in> set (set_all rt ?m rows)"
    by (simp only: set_all_Cons)
  from Cons.IH [OF k this] show ?case
  proof
    assume "r \<in> set rows"
    then show ?thesis by simp
  next
    assume a: "(k, r) \<in> set ?m \<and> k \<notin> stableLogKey rt ` set rows"
    have "distinct (map fst m)" using Cons.prems(1) by (simp add: keyed_def)
    from map_set_entries [OF this, of "stableLogKey rt x" x] a
    have "(k, r) = (stableLogKey rt x, x) \<or> ((k, r) \<in> set m \<and> k \<noteq> stableLogKey rt x)"
      by auto
    with a show ?thesis by auto
  qed
qed

lemma set_checked_entries:
  "keyed rt m \<Longrightarrow> (k, r) \<in> set (set_checked rt m rows) \<Longrightarrow>
   (r \<in> set rows) \<or> ((k, r) \<in> set m \<and> (k = [] \<or> k \<notin> stableLogKey rt ` set rows))"
proof (induction rows arbitrary: m)
  case Nil
  then show ?case by (simp add: set_checked_Nil)
next
  case (Cons x rows)
  let ?m = "if stableLogKey rt x \<noteq> [] then map_set m (stableLogKey rt x) x else m"
  have "keyed rt (map_set m (stableLogKey rt x) x)"
    using Cons.prems(1) by (rule keyed_map_set) simp
  with Cons.prems(1) have k: "keyed rt ?m" by simp
  from Cons.prems(2) have "(k, r) \<in> set (set_checked rt ?m rows)"
    by (simp only: set_checked_Cons)
  from Cons.IH [OF k this] show ?case
  proof
    assume "r \<in> set rows"
    then show ?thesis by simp
  next
    assume a: "(k, r) \<in> set ?m \<and> (k = [] \<or> k \<notin> stableLogKey rt ` set rows)"
    have d: "distinct (map fst m)" using Cons.prems(1) by (simp add: keyed_def)
    show ?thesis
    proof (cases "stableLogKey rt x \<noteq> []")
      case True
      with map_set_entries [OF d, of "stableLogKey rt x" x] a
      have "(k, r) = (stableLogKey rt x, x) \<or> ((k, r) \<in> set m \<and> k \<noteq> stableLogKey rt x)"
        by auto
      with a show ?thesis by auto
    next
      case False
      with a have "(k, r) \<in> set m" by simp
      with a False show ?thesis by auto
    qed
  qed
qed

subsection \<open>The merged list\<close>

lemma keyed_values:
  "keyed rt m \<Longrightarrow> map (stableLogKey rt) (map snd m) = map fst m"
  unfolding keyed_def by (induction m) auto

lemma distinct_keys_sort:
  "distinct (map f xs) \<Longrightarrow> distinct (map f (sort_key g xs))"
  by (simp add: distinct_map)

lemma merge_poll_props:
  "distinct (map (stableLogKey rt) (merge_poll rt cur newest))"
  "stableLogKey rt ` set (merge_poll rt cur newest) = stableLogKey rt ` (set cur \<union> set newest)"
  "set (merge_poll rt cur newest) \<subseteq> set cur \<union> set newest"
  "\<forall>r\<in>set (merge_poll rt cur newest).
      stableLogKey rt r \<in> stableLogKey rt ` set newest \<longrightarrow> r \<in> set newest"
  "sorted (map (getTime_or_0 rt) (merge_poll rt cur newest))"
proof -
  define m1 where "m1 = set_all rt [] cur"
  define m2 where "m2 = set_all rt m1 newest"
  have k1: "keyed rt m1" unfolding m1_def by (rule keyed_set_all [OF keyed_Nil])
  have k2: "keyed rt m2" unfolding m2_def by (rule keyed_set_all [OF k1])
  have mp: "merge_poll rt cur newest = sort_key (getTime_or_0 rt) (map snd m2)"
    by (simp add: merge_poll_def m2_def m1_def)
  have kv: "map (stableLogKey rt) (map snd m2) = map fst m2" by (rule keyed_values [OF k2])
  have "distinct (map (stableLogKey rt) (map snd m2))"
    unfolding kv using k2 by (simp add: keyed_def)
  then show "distinct (map (stableLogKey rt) (merge_poll rt cur newest))"
    unfolding mp by (rule distinct_keys_sort)
  have "stableLogKey rt ` set (map snd m2) = fst ` set m2"
    using kv by (metis list.set_map)
  also have "\<dots> = stableLogKey rt ` (set cur \<union> set newest)"
    by (simp add: m2_def m1_def set_all_keys image_Un)
  finally show "stableLogKey rt ` set (merge_poll rt cur newest) = stableLogKey rt ` (set cur \<union> set newest)"
    unfolding mp by simp
  have e2: "r \<in> set newest \<or> ((k, r) \<in> set m1 \<and> k \<notin> stableLogKey rt ` set newest)"
    if "(k, r) \<in> set m2" for k r
    using set_all_entries [OF k1, of k r newest] that by (simp add: m2_def)
  have e1: "r \<in> set cur" if "(k, r) \<in> set m1" for k r
    using set_all_entries [OF keyed_Nil, of k r rt cur] that by (simp add: m1_def)
  show "set (merge_poll rt cur newest) \<subseteq> set cur \<union> set newest"
  proof
    fix r assume "r \<in> set (merge_poll rt cur newest)"
    then obtain k where "(k, r) \<in> set m2" unfolding mp by auto
    from e2 [OF this] e1 show "r \<in> set cur \<union> set newest" by blast
  qed
  show "\<forall>r\<in>set (merge_poll rt cur newest).
      stableLogKey rt r \<in> stableLogKey rt ` set newest \<longrightarrow> r \<in> set newest"
  proof (intro ballI impI)
    fix r assume "r \<in> set (merge_poll rt cur newest)"
      and n: "stableLogKey rt r \<in> stableLogKey rt ` set newest"
    then obtain k where kr: "(k, r) \<in> set m2" unfolding mp by auto
    then have "k = stableLogKey rt r" using k2 by (auto simp: keyed_def)
    with e2 [OF kr] n show "r \<in> set newest" by blast
  qed
  show "sorted (map (getTime_or_0 rt) (merge_poll rt cur newest))"
    unfolding mp by (rule sorted_sort_key)
qed

lemma merge_initial_props:
  "distinct (map (stableLogKey rt) (merge_initial rt cur newest))"
  "stableLogKey rt ` set (merge_initial rt cur newest) = stableLogKey rt ` (set cur \<union> set newest) - {[]}"
  "set (merge_initial rt cur newest) \<subseteq> set cur \<union> set newest"
  "\<forall>r\<in>set (merge_initial rt cur newest).
      stableLogKey rt r \<in> stableLogKey rt ` set newest \<longrightarrow> r \<in> set newest"
  "sorted (map (getTime_or_0 rt) (merge_initial rt cur newest))"
proof -
  define m1 where "m1 = set_checked rt [] cur"
  define m2 where "m2 = set_checked rt m1 newest"
  have k1: "keyed rt m1" unfolding m1_def by (rule keyed_set_checked [OF keyed_Nil])
  have k2: "keyed rt m2" unfolding m2_def by (rule keyed_set_checked [OF k1])
  have mp: "merge_initial rt cur newest = sort_key (getTime_or_0 rt) (map snd m2)"
    by (simp add: merge_initial_def m2_def m1_def)
  have kv: "map (stableLogKey rt) (map snd m2) = map fst m2" by (rule keyed_values [OF k2])
  have "distinct (map (stableLogKey rt) (map snd m2))"
    unfolding kv using k2 by (simp add: keyed_def)
  then show "distinct (map (stableLogKey rt) (merge_initial rt cur newest))"
    unfolding mp by (rule distinct_keys_sort)
  have "stableLogKey rt ` set (map snd m2) = fst ` set m2"
    using kv by (metis list.set_map)
  also have "\<dots> = stableLogKey rt ` (set cur \<union> set newest) - {[]}"
    by (auto simp: m2_def m1_def set_checked_keys)
  finally show "stableLogKey rt ` set (merge_initial rt cur newest) =
      stableLogKey rt ` (set cur \<union> set newest) - {[]}"
    unfolding mp by simp
  have ne: "k \<noteq> []" if "(k, r) \<in> set m2" for k r
  proof -
    from that have "k \<in> fst ` set m2" by (metis fst_conv image_eqI)
    then show ?thesis by (auto simp: m2_def m1_def set_checked_keys)
  qed
  have e2: "r \<in> set newest \<or> ((k, r) \<in> set m1 \<and> k \<notin> stableLogKey rt ` set newest)"
    if "(k, r) \<in> set m2" for k r
    using set_checked_entries [OF k1, of k r newest] that ne [OF that] by (auto simp: m2_def)
  have e1: "r \<in> set cur" if "(k, r) \<in> set m1" for k r
    using set_checked_entries [OF keyed_Nil, of k r rt cur] that by (simp add: m1_def)
  show "set (merge_initial rt cur newest) \<subseteq> set cur \<union> set newest"
  proof
    fix r assume "r \<in> set (merge_initial rt cur newest)"
    then obtain k where "(k, r) \<in> set m2" unfolding mp by auto
    from e2 [OF this] e1 show "r \<in> set cur \<union> set newest" by blast
  qed
  show "\<forall>r\<in>set (merge_initial rt cur newest).
      stableLogKey rt r \<in> stableLogKey rt ` set newest \<longrightarrow> r \<in> set newest"
  proof (intro ballI impI)
    fix r assume "r \<in> set (merge_initial rt cur newest)"
      and n: "stableLogKey rt r \<in> stableLogKey rt ` set newest"
    then obtain k where kr: "(k, r) \<in> set m2" unfolding mp by auto
    then have "k = stableLogKey rt r" using k2 by (auto simp: keyed_def)
    with e2 [OF kr] n show "r \<in> set newest" by blast
  qed
  show "sorted (map (getTime_or_0 rt) (merge_initial rt cur newest))"
    unfolding mp by (rule sorted_sort_key)
qed

lemma merge_poll_same_key:
  assumes "stableLogKey rt r1 = stableLogKey rt r2"
  shows "merge_poll rt [r1] [r2] = [r2]" "merge_poll rt [] [r1, r2] = [r2]"
  using assms by (simp_all add: merge_poll_def set_all_def)

lemma first_timestamp:
  "time_of_value rt (fld r ''timestamp'') = Some t \<Longrightarrow> getTimestampFromLog rt r = Some t"
  by (simp add: getTimestampFromLog_def candidates_def)

lemma stableLogKey_cases:
  "truthy_v rt (fld r ''id'') \<Longrightarrow> stableLogKey rt r = to_str rt (fld r ''id'')"
  "\<not> truthy_v rt (fld r ''id'') \<Longrightarrow> truthy_v rt (fld r ''_id'') \<Longrightarrow>
     stableLogKey rt r = to_str rt (fld r ''_id'')"
  "\<not> truthy_v rt (fld r ''id'') \<Longrightarrow> \<not> truthy_v rt (fld r ''_id'') \<Longrightarrow>
     truthy_v rt (fld r ''uuid'') \<Longrightarrow> stableLogKey rt r = to_str rt (fld r ''uuid'')"
  "\<not> truthy_v rt (fld r ''id'') \<Longrightarrow> \<not> truthy_v rt (fld r ''_id'') \<Longrightarrow>
     \<not> truthy_v rt (fld r ''uuid'') \<Longrightarrow>
     stableLogKey rt r =
       (case getTimestampFromLog rt r of
          Some t \<Rightarrow> decimal_int t @ ''::'' @
            sliceText rt 240 (if truthy_v rt (fld r ''message'') then to_str rt (fld r ''message'')
                      else if truthy_v rt (fld r ''msg'') then to_str rt (fld r ''msg'')
                      else if truthy_v rt (fld r ''m'') then to_str rt (fld r ''m'') else [])
        | None \<Rightarrow> sliceText rt 500 (stringify rt r))"
  by (simp_all add: stableLogKey_def or_v_def Let_def split: option.splits)

lemma stableLogKey_composite:
  assumes "\<not> truthy_v rt (fld r ''id'')" "\<not> truthy_v rt (fld r ''_id'')" "\<not> truthy_v rt (fld r ''uuid'')"
    and "time_of_value rt (fld r ''timestamp'') = Some t" and "truthy_v rt (fld r ''message'')"
  shows "stableLogKey rt r = decimal_int t @ ''::'' @ sliceText rt 240 (to_str rt (fld r ''message''))"
  using assms by (simp add: stableLogKey_def first_timestamp or_v_def Let_def)

text \<open>
  Claim C8, amended. \<open>dedupeLogs\<close> keeps rows of its input, at least one for every
  key that occurs and exactly one for every key that is a number, a string or a
  boolean; a row whose id is an array or an object is always kept. The key is the
  \<open>id\<close> when that is neither null nor undefined, else the text \<open>timestamp::message\<close>,
  with \<open>raw\<close> in the place of an empty or missing message. The dashboard merges keep one
  row for every \<open>stableLogKey\<close>, which is the text of the first truthy one of \<open>id\<close>,
  \<open>_id\<close> and \<open>uuid\<close>; failing these, when a timestamp parses, the time value, \<open>::\<close>
  and the first 240 characters of the first truthy one of \<open>message\<close>, \<open>msg\<close> and \<open>m\<close>;
  and else the first 500 characters of the serialised row. So two rows with the same id
  (not null and no array or object for \<open>dedupeLogs\<close>, truthy for the merge) come out
  as one row, and two rows without id that agree on the timestamp and on a non-empty
  message come out as one row (for the merge: rows with no truthy \<open>id\<close>, \<open>_id\<close> or
  \<open>uuid\<close>, whose timestamp parses).
\<close>

theorem rows_deduplicated_by_key:
  "distinct (filter (\<lambda>k. \<not> is_ref k) (map (logKey rt) (dedupeLogs rt xs))) \<and>
   filter (\<lambda>r. is_ref (logKey rt r)) (dedupeLogs rt xs) = filter (\<lambda>r. is_ref (logKey rt r)) xs \<and>
   set (map (logKey rt) (dedupeLogs rt xs)) = set (map (logKey rt) xs) \<and>
   set (dedupeLogs rt xs) \<subseteq> set xs \<and>
   (\<not> nullish (fld r ''id'') \<longrightarrow> logKey rt r = fld r ''id'') \<and>
   (nullish (fld r ''id'') \<longrightarrow>
      logKey rt r = JStr (to_str rt (or_v rt (fld r ''timestamp'') (JStr [])) @ ''::'' @
                          to_str rt (or_v rt (or_v rt (fld r ''message'') (fld r ''raw'')) (JStr [])))) \<and>
   (\<not> nullish (fld r1 ''id'') \<and> \<not> is_ref (fld r1 ''id'') \<and> fld r1 ''id'' = fld r2 ''id'' \<longrightarrow>
      dedupeLogs rt [r1, r2] = [r1]) \<and>
   (nullish (fld r1 ''id'') \<and> nullish (fld r2 ''id'') \<and>
    fld r1 ''timestamp'' = fld r2 ''timestamp'' \<and>
    fld r1 ''message'' = fld r2 ''message'' \<and> truthy_v rt (fld r1 ''message'') \<longrightarrow>
      dedupeLogs rt [r1, r2] = [r1]) \<and>
   distinct (map (stableLogKey rt) (merge_poll rt cur newest)) \<and>
   distinct (map (stableLogKey rt) (merge_initial rt cur newest)) \<and>
   (truthy_v rt (fld r ''id'') \<longrightarrow> stableLogKey rt r = to_str rt (fld r ''id'')) \<and>
   (\<not> truthy_v rt (fld r ''id'') \<and> truthy_v rt (fld r ''_id'') \<longrightarrow>
      stableLogKey rt r = to_str rt (fld r ''_id'')) \<and>
   (\<not> truthy_v rt (fld r ''id'') \<and> \<not> truthy_v rt (fld r ''_id'') \<and> truthy_v rt (fld r ''uuid'') \<longrightarrow>
      stableLogKey rt r = to_str rt (fld r ''uuid'')) \<and>
   (\<not> truthy_v rt (fld r ''id'') \<and> \<not> truthy_v rt (fld r ''_id'') \<and>
    \<not> truthy_v rt (fld r ''uuid'') \<longrightarrow>
      stableLogKey rt r =
        (case getTimestampFromLog rt r of
           Some t \<Rightarrow> decimal_int t @ ''::'' @
             sliceText rt 240 (if truthy_v rt (fld r ''message'') then to_str rt (fld r ''message'')
                       else if truthy_v rt (fld r ''msg'') then to_str rt (fld r ''msg'')
                       else if truthy_v rt (fld r ''m'') then to_str rt (fld r ''m'') else [])
         | None \<Rightarrow> sliceText rt 500 (stringify rt r))) \<and>
   (stableLogKey rt r1 = stableLogKey rt r2 \<longrightarrow>
      merge_poll rt [r1] [r2] = [r2] \<and> merge_poll rt [] [r1, r2] = [r2]) \<and>
   (truthy_v rt (fld r1 ''id'') \<and> fld r1 ''id'' = fld r2 ''id'' \<longrightarrow>
      merge_poll rt [r1] [r2] = [r2] \<and> merge_poll rt [] [r1, r2] = [r2]) \<and>
   (\<not> truthy_v rt (fld r1 ''id'') \<and> \<not> truthy_v rt (fld r1 ''_id'') \<and> \<not> truthy_v rt (fld r1 ''uuid'') \<and>
    \<not> truthy_v rt (fld r2 ''id'') \<and> \<not> truthy_v rt (fld r2 ''_id'') \<and> \<not> truthy_v rt (fld r2 ''uuid'') \<and>
    fld r1 ''timestamp'' = fld r2 ''timestamp'' \<and> time_of_value rt (fld r1 ''timestamp'') \<noteq> None \<and>
    fld r1 ''message'' = fld r2 ''message'' \<and> truthy_v rt (fld r1 ''message'') \<longrightarrow>
      merge_poll rt [r1] [r2] = [r2] \<and> merge_poll rt [] [r1, r2] = [r2])"
proof -
  have 1: "distinct (filter (\<lambda>k. \<not> is_ref k) (map (logKey rt) (dedupeLogs rt xs)))"
    by (rule dedupeLogs_distinct)
  have refs: "filter (\<lambda>r. is_ref (logKey rt r)) (dedupeLogs rt xs) =
      filter (\<lambda>r. is_ref (logKey rt r)) xs"
    by (rule dedupeLogs_refs)
  have 2: "set (map (logKey rt) (dedupeLogs rt xs)) = set (map (logKey rt) xs)"
    by (rule dedupeLogs_keys)
  have 3: "set (dedupeLogs rt xs) \<subseteq> set xs" by (rule dedupeLogs_subset)
  have 4: "\<not> nullish (fld r ''id'') \<longrightarrow> logKey rt r = fld r ''id''"
    by (simp add: logKey_id)
  have 5: "nullish (fld r ''id'') \<longrightarrow>
      logKey rt r = JStr (to_str rt (or_v rt (fld r ''timestamp'') (JStr [])) @ ''::'' @
                          to_str rt (or_v rt (or_v rt (fld r ''message'') (fld r ''raw'')) (JStr [])))"
    using logKey_composite [of r rt] by blast
  have 6: "\<not> nullish (fld r1 ''id'') \<and> \<not> is_ref (fld r1 ''id'') \<and> fld r1 ''id'' = fld r2 ''id'' \<longrightarrow>
      dedupeLogs rt [r1, r2] = [r1]"
  proof
    assume a: "\<not> nullish (fld r1 ''id'') \<and> \<not> is_ref (fld r1 ''id'') \<and> fld r1 ''id'' = fld r2 ''id''"
    then have "logKey rt r1 = logKey rt r2" "\<not> is_ref (logKey rt r1)"
      by (auto simp: logKey_def coalesce_def)
    then show "dedupeLogs rt [r1, r2] = [r1]" by (rule dedupeLogs_pair)
  qed
  have 7: "nullish (fld r1 ''id'') \<and> nullish (fld r2 ''id'') \<and>
    fld r1 ''timestamp'' = fld r2 ''timestamp'' \<and>
    fld r1 ''message'' = fld r2 ''message'' \<and> truthy_v rt (fld r1 ''message'') \<longrightarrow>
      dedupeLogs rt [r1, r2] = [r1]"
  proof
    assume a: "nullish (fld r1 ''id'') \<and> nullish (fld r2 ''id'') \<and>
      fld r1 ''timestamp'' = fld r2 ''timestamp'' \<and>
      fld r1 ''message'' = fld r2 ''message'' \<and> truthy_v rt (fld r1 ''message'')"
    then have "logKey rt r1 = logKey rt r2" "\<not> is_ref (logKey rt r1)"
      by (auto simp: logKey_def coalesce_def or_v_def is_ref_def)
    then show "dedupeLogs rt [r1, r2] = [r1]" by (rule dedupeLogs_pair)
  qed
  have 8: "distinct (map (stableLogKey rt) (merge_poll rt cur newest))"
    by (rule merge_poll_props(1))
  have 9: "distinct (map (stableLogKey rt) (merge_initial rt cur newest))"
    by (rule merge_initial_props(1))
  have k1: "truthy_v rt (fld r ''id'') \<longrightarrow> stableLogKey rt r = to_str rt (fld r ''id'')"
    using stableLogKey_cases(1) [of rt r] by blast
  have k2: "\<not> truthy_v rt (fld r ''id'') \<and> truthy_v rt (fld r ''_id'') \<longrightarrow>
      stableLogKey rt r = to_str rt (fld r ''_id'')"
    using stableLogKey_cases(2) [of rt r] by blast
  have k3: "\<not> truthy_v rt (fld r ''id'') \<and> \<not> truthy_v rt (fld r ''_id'') \<and>
      truthy_v rt (fld r ''uuid'') \<longrightarrow> stableLogKey rt r = to_str rt (fld r ''uuid'')"
    using stableLogKey_cases(3) [of rt r] by blast
  have k4: "\<not> truthy_v rt (fld r ''id'') \<and> \<not> truthy_v rt (fld r ''_id'') \<and>
    \<not> truthy_v rt (fld r ''uuid'') \<longrightarrow>
      stableLogKey rt r =
        (case getTimestampFromLog rt r of
           Some t \<Rightarrow> decimal_int t @ ''::'' @
             sliceText rt 240 (if truthy_v rt (fld r ''message'') then to_str rt (fld r ''message'')
                       else if truthy_v rt (fld r ''msg'') then to_str rt (fld r ''msg'')
                       else if truthy_v rt (fld r ''m'') then to_str rt (fld r ''m'') else [])
         | None \<Rightarrow> sliceText rt 500 (stringify rt r))"
    using stableLogKey_cases(4) [of rt r] by blast
  have k5: "stableLogKey rt r1 = stableLogKey rt r2 \<longrightarrow>
      merge_poll rt [r1] [r2] = [r2] \<and> merge_poll rt [] [r1, r2] = [r2]"
    using merge_poll_same_key [of rt r1 r2] by blast
  have 10: "truthy_v rt (fld r1 ''id'') \<and> fld r1 ''id'' = fld r2 ''id'' \<longrightarrow>
      merge_poll rt [r1] [r2] = [r2] \<and> merge_poll rt [] [r1, r2] = [r2]"
  proof
    assume a: "truthy_v rt (fld r1 ''id'') \<and> fld r1 ''id'' = fld r2 ''id''"
    then have "stableLogKey rt r1 = stableLogKey rt r2" by (auto simp: stableLogKey_def)
    then show "merge_poll rt [r1] [r2] = [r2] \<and> merge_poll rt [] [r1, r2] = [r2]"
      using merge_poll_same_key [of rt r1 r2] by simp
  qed
  have 11: "\<not> truthy_v rt (fld r1 ''id'') \<and> \<not> truthy_v rt (fld r1 ''_id'') \<and> \<not> truthy_v rt (fld r1 ''uuid'') \<and>
    \<not> truthy_v rt (fld r2 ''id'') \<and> \<not> truthy_v rt (fld r2 ''_id'') \<and> \<not> truthy_v rt (fld r2 ''uuid'') \<and>
    fld r1 ''timestamp'' = fld r2 ''timestamp'' \<and> time_of_value rt (fld r1 ''timestamp'') \<noteq> None \<and>
    fld r1 ''message'' = fld r2 ''message'' \<and> truthy_v rt (fld r1 ''message'') \<longrightarrow>
      merge_poll rt [r1] [r2] = [r2] \<and> merge_poll rt [] [r1, r2] = [r2]"
  proof
    assume a: "\<not> truthy_v rt (fld r1 ''id'') \<and> \<not> truthy_v rt (fld r1 ''_id'') \<and> \<not> truthy_v rt (fld r1 ''uuid'') \<and>
      \<not> truthy_v rt (fld r2 ''id'') \<and> \<not> truthy_v rt (fld r2 ''_id'') \<and> \<not> truthy_v rt (fld r2 ''uuid'') \<and>
      fld r1 ''timestamp'' = fld r2 ''timestamp'' \<and> time_of_value rt (fld r1 ''timestamp'') \<noteq> None \<and>
      fld r1 ''message'' = fld r2 ''message'' \<and> truthy_v rt (fld r1 ''message'')"
    then obtain t where t: "time_of_value rt (fld r1 ''timestamp'') = Some t" by blast
    have "stableLogKey rt r1 = decimal_int t @ ''::'' @ sliceText rt 240 (to_str rt (fld r1 ''message''))"
      using a t by (intro stableLogKey_composite) auto
    moreover have "stableLogKey rt r2 = decimal_int t @ ''::'' @ sliceText rt 240 (to_str rt (fld r2 ''message''))"
      using a t by (intro stableLogKey_composite) auto
    ultimately have "stableLogKey rt r1 = stableLogKey rt r2" using a by simp
    then show "merge_poll rt [r1] [r2] = [r2] \<and> merge_poll rt [] [r1, r2] = [r2]"
      using merge_poll_same_key [of rt r1 r2] by simp
  qed
  from 1 refs 2 3 4 5 6 7 8 9 k1 k2 k3 k4 k5 10 11 show ?thesis by (intro conjI)
qed

text \<open>
  Claim C9, amended. Both merges (the one of the poll and the one of the initial
  load) return rows of the cache or of the fetch, one row for every key of either
  (the initial load leaves out an empty key), the fetched row where the fetch has the
  key, in ascending order of the sort key; the sort key of a row without a parsable
  timestamp is 0, the epoch. A poll tick shows the merged list and caches its last
  5000 rows.
\<close>

theorem cache_merge_keyed_and_sorted:
  "(let merged = merge_poll rt cur newest in
      distinct (map (stableLogKey rt) merged) \<and>
      stableLogKey rt ` set merged = stableLogKey rt ` (set cur \<union> set newest) \<and>
      set merged \<subseteq> set cur \<union> set newest \<and>
      (\<forall>r\<in>set merged. stableLogKey rt r \<in> stableLogKey rt ` set newest \<longrightarrow> r \<in> set newest) \<and>
      sorted (map (getTime_or_0 rt) merged)) \<and>
   (let merged = merge_initial rt cur newest in
      distinct (map (stableLogKey rt) merged) \<and>
      stableLogKey rt ` set merged = stableLogKey rt ` (set cur \<union> set newest) - {[]} \<and>
      set merged \<subseteq> set cur \<union> set newest \<and>
      (\<forall>r\<in>set merged. stableLogKey rt r \<in> stableLogKey rt ` set newest \<longrightarrow> r \<in> set newest) \<and>
      sorted (map (getTime_or_0 rt) merged)) \<and>
   (getTimestampFromLog rt a = None \<longrightarrow> getTime_or_0 rt a = 0) \<and>
   shown (poll_tick rt newest d) = merge_poll rt (cache d) newest \<and>
   cache (poll_tick rt newest d) = writeCache (merge_poll rt (cache d) newest)"
  unfolding Let_def
  using merge_poll_props [of rt cur newest] merge_initial_props [of rt cur newest]
  by (simp add: getTime_or_0_def poll_tick_def Let_def)

lemmas dash_defs = stableLogKey_def getTimestampFromLog_def candidates_def time_of_value_def
  time_of_number_def time_of_string_def valid_time_def max_time_def getTime_or_0_def
  merge_poll_def merge_initial_def set_all_def set_checked_def
  ascii_trim_def all_digits_def is_space_def json_string_def json_char_def hex_char_def

text \<open>
  Claim C8 as stated fails on four pairs of rows that stay two rows: equal timestamp
  and equal (empty) message but different \<open>raw\<close> in \<open>dedupeLogs\<close>; the same id 0,
  which is falsy, in the dashboard merge; equal timestamp that does not parse and equal
  message, but different level, in the dashboard merge; and the same id \<open>[7]\<close>, an
  array, in \<open>dedupeLogs\<close>.
\<close>

theorem dedup_counterexamples:
  "dedupeLogs sample_runtime
     [ [(''timestamp'', JStr ''2024-05-01T10:00:00Z''), (''message'', JStr ''''),
       (''raw'', JStr ''disk full'')],
      [(''timestamp'', JStr ''2024-05-01T10:00:00Z''), (''message'', JStr ''''),
       (''raw'', JStr ''disk ok'')]] =
     [ [(''timestamp'', JStr ''2024-05-01T10:00:00Z''), (''message'', JStr ''''),
       (''raw'', JStr ''disk full'')],
      [(''timestamp'', JStr ''2024-05-01T10:00:00Z''), (''message'', JStr ''''),
       (''raw'', JStr ''disk ok'')]] \<and>
   merge_poll sample_runtime []
     [ [(''id'', JNum 0), (''timestamp'', JNum 1000), (''message'', JStr ''a'')],
      [(''id'', JNum 0), (''timestamp'', JNum 2000), (''message'', JStr ''b'')]] =
     [ [(''id'', JNum 0), (''timestamp'', JNum 1000), (''message'', JStr ''a'')],
      [(''id'', JNum 0), (''timestamp'', JNum 2000), (''message'', JStr ''b'')]] \<and>
   merge_poll sample_runtime []
     [ [(''timestamp'', JStr ''n/a''), (''message'', JStr ''x''), (''level'', JStr ''INFO'')],
      [(''timestamp'', JStr ''n/a''), (''message'', JStr ''x''), (''level'', JStr ''WARN'')]] =
     [ [(''timestamp'', JStr ''n/a''), (''message'', JStr ''x''), (''level'', JStr ''INFO'')],
      [(''timestamp'', JStr ''n/a''), (''message'', JStr ''x''), (''level'', JStr ''WARN'')]] \<and>
   dedupeLogs sample_runtime
     [ [(''id'', JArr [JNum 7]), (''message'', JStr ''a'')],
      [(''id'', JArr [JNum 7]), (''message'', JStr ''b'')]] =
     [ [(''id'', JArr [JNum 7]), (''message'', JStr ''a'')],
      [(''id'', JArr [JNum 7]), (''message'', JStr ''b'')]]"
  by (simp add: value_defs dash_defs)

text \<open>
  Claim C9 as stated fails: a row without timestamp sorts as time 0, so a row dated
  before the epoch comes before it.
\<close>

theorem undated_row_not_earliest:
  "getTimestampFromLog sample_runtime [(''id'', JNum 2), (''message'', JStr ''no time'')] = None \<and>
   merge_poll sample_runtime [ [(''id'', JNum 2), (''message'', JStr ''no time'')]]
     [ [(''id'', JNum 1), (''timestamp'', JNum (- 5))]] =
     [ [(''id'', JNum 1), (''timestamp'', JNum (- 5))],
      [(''id'', JNum 2), (''message'', JStr ''no time'')]]"
  by (simp add: value_defs dash_defs)

theorem rows_deduplicated_by_key_witness:
  "\<not> nullish (fld ([(''id'', JNum 1), (''message'', JStr ''a'')] :: 32 word logrow) ''id'') \<and>
   \<not> is_ref (fld ([(''id'', JNum 1), (''message'', JStr ''a'')] :: 32 word logrow) ''id'') \<and>
   fld ([(''id'', JNum 1), (''message'', JStr ''a'')] :: 32 word logrow) ''id'' =
     fld [(''id'', JNum 1), (''message'', JStr ''b'')] ''id'' \<and>
   truthy_v sample_runtime (fld [(''id'', JNum 1), (''message'', JStr ''a'')] ''id'') \<and>
   dedupeLogs sample_runtime [ [(''id'', JNum 1), (''message'', JStr ''a'')],
                              [(''id'', JNum 1), (''message'', JStr ''b'')]] =
     [ [(''id'', JNum 1), (''message'', JStr ''a'')]] \<and>
   merge_poll sample_runtime [ [(''id'', JNum 1), (''message'', JStr ''a'')]]
     [ [(''id'', JNum 1), (''message'', JStr ''b'')]] =
     [ [(''id'', JNum 1), (''message'', JStr ''b'')]] \<and>
   \<not> truthy_v sample_runtime (fld [(''id'', JNum 0), (''_id'', JStr ''x7'')] ''id'') \<and>
   truthy_v sample_runtime (fld [(''id'', JNum 0), (''_id'', JStr ''x7'')] ''_id'') \<and>
   stableLogKey sample_runtime [(''id'', JNum 0), (''_id'', JStr ''x7'')] = ''x7''"
proof -
  let ?a = "[(''id'', JNum 1), (''message'', JStr ''a'')] :: 32 word logrow"
  let ?b = "[(''id'', JNum 1), (''message'', JStr ''b'')] :: 32 word logrow"
  let ?c = "[(''id'', JNum 0), (''_id'', JStr ''x7'')] :: 32 word logrow"
  have h: "\<not> nullish (fld ?a ''id'')" "\<not> is_ref (fld ?a ''id'')" "fld ?a ''id'' = fld ?b ''id''"
    "truthy_v sample_runtime (fld ?a ''id'')"
    "\<not> truthy_v sample_runtime (fld ?c ''id'')" "truthy_v sample_runtime (fld ?c ''_id'')"
    by (simp_all add: value_defs)
  have v: "to_str sample_runtime (fld ?c ''_id'') = ''x7''" by (simp add: value_defs)
  note c = rows_deduplicated_by_key [where rt = sample_runtime and xs = "[?a, ?b]" and r = ?c
      and ?r1.0 = ?a and ?r2.0 = ?b and cur = "[]" and newest = "[]"]
  from c h have r: "dedupeLogs sample_runtime [?a, ?b] = [?a]"
    "merge_poll sample_runtime [?a] [?b] = [?b]"
    "stableLogKey sample_runtime ?c = to_str sample_runtime (fld ?c ''_id'')"
    by blast+
  have k: "stableLogKey sample_runtime ?c = ''x7''"
    by (simp only: r(3) v)
  show ?thesis
    using h(1) h(2) h(3) h(4) r(1) r(2) h(5) h(6) k by (intro conjI)
qed

theorem cache_merge_keyed_and_sorted_witness:
  "merge_poll sample_runtime
     [ [(''id'', JNum 1), (''timestamp'', JNum 2000), (''message'', JStr ''old'')]]
     [ [(''id'', JNum 1), (''timestamp'', JNum 2000), (''message'', JStr ''new'')],
      [(''id'', JNum 2), (''timestamp'', JNum 1000)]] =
     [ [(''id'', JNum 2), (''timestamp'', JNum 1000)],
      [(''id'', JNum 1), (''timestamp'', JNum 2000), (''message'', JStr ''new'')]] \<and>
   sorted (map (getTime_or_0 sample_runtime)
     [ [(''id'', JNum 2), (''timestamp'', JNum 1000)],
      [(''id'', JNum 1), (''timestamp'', JNum 2000), (''message'', JStr ''new'')]]) \<and>
   distinct (map (stableLogKey sample_runtime)
     [ [(''id'', JNum 2), (''timestamp'', JNum 1000)],
      [(''id'', JNum 1), (''timestamp'', JNum 2000), (''message'', JStr ''new'')]])"
proof -
  let ?old = "[(''id'', JNum 1), (''timestamp'', JNum 2000), (''message'', JStr ''old'')] :: 32 word logrow"
  let ?new = "[(''id'', JNum 1), (''timestamp'', JNum 2000), (''message'', JStr ''new'')] :: 32 word logrow"
  let ?two = "[(''id'', JNum 2), (''timestamp'', JNum 1000)] :: 32 word logrow"
  have e: "merge_poll sample_runtime [?old] [?new, ?two] = [?two, ?new]"
    by (simp add: value_defs dash_defs)
  from cache_merge_keyed_and_sorted [of sample_runtime "[?old]" "[?new, ?two]", unfolded Let_def]
  have "sorted (map (getTime_or_0 sample_runtime) (merge_poll sample_runtime [?old] [?new, ?two]))"
    "distinct (map (stableLogKey sample_runtime) (merge_poll sample_runtime [?old] [?new, ?two]))"
    by blast+
  then show ?thesis unfolding e using e by simp
qed


end
